theory Spec2Isabelle
  imports Complex_Main "HOL-Library.Multiset"
begin

section \<open>Data model (src/src/App.tsx, lines 4-33)\<close>

text \<open>
  The simulation lives in \<^verbatim>\<open>src/src/App.tsx\<close>. A cell is an object with a state, an
  optional team and an optional health; a grid is an array of rows of cells. Row and
  column numbers are JavaScript numbers that the code offsets by negative amounts before
  every bounds check, so positions are integers here. The grid is read at a position only
  after \<^verbatim>\<open>inBounds\<close> has accepted it, against \<^verbatim>\<open>grid.length\<close> and
  \<^verbatim>\<open>grid[0].length\<close>; every grid the program builds is non-empty and rectangular
  (\<open>wfGrid\<close> below), and the theorems that read the grid assume it.
\<close>

datatype Team = Blue | Green

datatype CellState = Empty | Dot | Producer | Block | BombArmed | BombHot

record Cell =
  state :: CellState
  team :: "Team option"
  health :: "int option"

type_synonym Grid = "Cell list list"

type_synonym Pos = "int \<times> int"

definition CARDINALS :: "Pos list" where
  "CARDINALS = [(1, 0), (-1, 0), (0, 1), (0, -1)]"

definition DIAGONALS :: "Pos list" where
  "DIAGONALS = [(1, 1), (1, -1), (-1, 1), (-1, -1)]"

definition ALL_NEIGHBORS :: "Pos list" where
  "ALL_NEIGHBORS = CARDINALS @ DIAGONALS"

definition BLAST_SURVIVAL_CHANCE :: real where
  "BLAST_SURVIVAL_CHANCE = 12 / 100"

definition SPILL_CHANCE :: real where
  "SPILL_CHANCE = 25 / 100"

definition MAX_HEALTH :: int where
  "MAX_HEALTH = 3"

definition PRODUCE_EVERY :: int where
  "PRODUCE_EVERY = 6"

definition MAX_NUTRIENTS_PER_CELL :: nat where
  "MAX_NUTRIENTS_PER_CELL = 1"

definition ROWS :: nat where
  "ROWS = 24"

definition COLS :: nat where
  "COLS = 24"

definition emptyCell :: Cell where
  "emptyCell = \<lparr>state = Empty, team = None, health = None\<rparr>"

definition createEmptyGrid :: "nat \<Rightarrow> nat \<Rightarrow> Grid" where
  "createEmptyGrid rows cols = replicate rows (replicate cols emptyCell)"

definition inBounds :: "int \<Rightarrow> int \<Rightarrow> int \<Rightarrow> int \<Rightarrow> bool" where
  "inBounds r c rows cols \<longleftrightarrow> r \<ge> 0 \<and> r < rows \<and> c \<ge> 0 \<and> c < cols"

definition numRows :: "Grid \<Rightarrow> int" where
  "numRows g = int (length g)"

definition numCols :: "Grid \<Rightarrow> int" where
  "numCols g = int (length (hd g))"

definition wfGrid :: "Grid \<Rightarrow> bool" where
  "wfGrid g \<longleftrightarrow> g \<noteq> [] \<and> list_all (\<lambda>row. length row = length (hd g)) g"

text \<open>\<^verbatim>\<open>grid[r][c]\<close> and \<^verbatim>\<open>next[r][c] = v\<close>, used at positions inside the bounds.\<close>

definition cellAt :: "Grid \<Rightarrow> int \<Rightarrow> int \<Rightarrow> Cell" where
  "cellAt g r c = g ! nat r ! nat c"

definition setCell :: "Grid \<Rightarrow> int \<Rightarrow> int \<Rightarrow> Cell \<Rightarrow> Grid" where
  "setCell g r c v = g[nat r := (g ! nat r)[nat c := v]]"

definition isDotLike :: "Cell \<Rightarrow> bool" where
  "isDotLike cell \<longleftrightarrow> state cell = Dot \<or> state cell = Producer"

text \<open>
  The row-major double loop \<^verbatim>\<open>for r < rows, for c < cols\<close> visits these positions in
  this order.
\<close>

definition positions :: "int \<Rightarrow> int \<Rightarrow> Pos list" where
  "positions rows cols = concat (map (\<lambda>r. map (\<lambda>c. (r, c)) [0..cols - 1]) [0..rows - 1])"

section \<open>The random source\<close>

text \<open>
  The code draws from the global \<^verbatim>\<open>Math.random()\<close>. The model makes the sequence of
  its results explicit: \<open>rnd n\<close> is the value returned by the \<open>n\<close>-th call, and every
  function that draws takes the number \<open>k\<close> of calls made so far and returns the new
  count. \<^verbatim>\<open>Math.random()\<close> returns a number in \<open>[0, 1)\<close>, which is \<open>unitRnd\<close>.
\<close>

definition unitRnd :: "(nat \<Rightarrow> real) \<Rightarrow> bool" where
  "unitRnd rnd \<longleftrightarrow> (\<forall>n. 0 \<le> rnd n \<and> rnd n < 1)"

text \<open>
  \<^verbatim>\<open>shuffled\<close> (lines 43-50): the loop runs \<open>i\<close> from \<open>length - 1\<close> down to \<open>1\<close>,
  draws \<open>j = floor (random * (i + 1))\<close> and swaps the entries at \<open>i\<close> and \<open>j\<close>.
\<close>

fun shuffleFrom :: "(nat \<Rightarrow> real) \<Rightarrow> nat \<Rightarrow> nat \<Rightarrow> 'a list \<Rightarrow> 'a list \<times> nat" where
  "shuffleFrom rnd k 0 arr = (arr, k)"
| "shuffleFrom rnd k (Suc i) arr =
     (let j = nat \<lfloor>rnd k * real (Suc i + 1)\<rfloor>
      in shuffleFrom rnd (Suc k) i (arr[Suc i := arr ! j, j := arr ! Suc i]))"

definition shuffled :: "(nat \<Rightarrow> real) \<Rightarrow> nat \<Rightarrow> 'a list \<Rightarrow> 'a list \<times> nat" where
  "shuffled rnd k items = shuffleFrom rnd k (length items - 1) items"

section \<open>Blast footprint (collectBlastCells, lines 68-92)\<close>

definition blastSquare :: "int \<Rightarrow> int \<Rightarrow> int \<Rightarrow> int \<Rightarrow> Pos list" where
  "blastSquare r c rows cols =
     filter (\<lambda>(nr, nc). inBounds nr nc rows cols)
       (concat (map (\<lambda>dr. map (\<lambda>dc. (r + dr, c + dc)) [-1, 0, 1]) [-1, 0, 1]))"

definition spillCandidates :: "int \<Rightarrow> int \<Rightarrow> Pos list" where
  "spillCandidates r c =
     [(r + 2, c), (r - 2, c), (r, c + 2), (r, c - 2),
      (r + 1, c + 1), (r + 1, c - 1), (r - 1, c + 1), (r - 1, c - 1)]"

text \<open>
  The \<^verbatim>\<open>spill.forEach\<close> callback: a candidate outside the bounds returns before any
  draw; a candidate inside draws once and is pushed when the draw is below 0.25.
\<close>

fun spillLoop :: "(nat \<Rightarrow> real) \<Rightarrow> nat \<Rightarrow> int \<Rightarrow> int \<Rightarrow> Pos list \<Rightarrow> Pos list \<Rightarrow> Pos list \<times> nat" where
  "spillLoop rnd k rows cols [] cells = (cells, k)"
| "spillLoop rnd k rows cols ((nr, nc) # rest) cells =
     (if \<not> inBounds nr nc rows cols then spillLoop rnd k rows cols rest cells
      else if rnd k < SPILL_CHANCE then spillLoop rnd (Suc k) rows cols rest (cells @ [(nr, nc)])
      else spillLoop rnd (Suc k) rows cols rest cells)"

definition collectBlastCells :: "(nat \<Rightarrow> real) \<Rightarrow> nat \<Rightarrow> int \<Rightarrow> int \<Rightarrow> int \<Rightarrow> int \<Rightarrow> Pos list \<times> nat" where
  "collectBlastCells rnd k r c rows cols =
     spillLoop rnd k rows cols (spillCandidates r c) (blastSquare r c rows cols)"

section \<open>The rule resolver (stepGrid, lines 94-287)\<close>

text \<open>
  The animation hints (\<^verbatim>\<open>anims\<close>, \<^verbatim>\<open>markAnim\<close>) are written and never read by the
  simulation; they are left out. A blast key \<^verbatim>\<open>keyFor(r, c)\<close> is the pair \<open>(r, c)\<close>.
\<close>

subsection \<open>Bomb triggers and transitions (lines 109-141)\<close>

definition countWalls :: "Grid \<Rightarrow> int \<Rightarrow> int \<Rightarrow> int \<Rightarrow> int \<Rightarrow> Team option \<Rightarrow> nat" where
  "countWalls g rows cols r c tm =
     length (filter (\<lambda>(dr, dc). inBounds (r + dr) (c + dc) rows cols
                       \<and> state (cellAt g (r + dr) (c + dc)) = Block
                       \<and> team (cellAt g (r + dr) (c + dc)) \<noteq> tm) ALL_NEIGHBORS)"

definition toArm :: "Grid \<Rightarrow> int \<Rightarrow> int \<Rightarrow> Pos list" where
  "toArm g rows cols =
     filter (\<lambda>(r, c). isDotLike (cellAt g r c)
                \<and> countWalls g rows cols r c (team (cellAt g r c)) \<ge> 4) (positions rows cols)"

definition toHot :: "Grid \<Rightarrow> int \<Rightarrow> int \<Rightarrow> Pos list" where
  "toHot g rows cols = filter (\<lambda>(r, c). state (cellAt g r c) = BombArmed) (positions rows cols)"

definition toExplode :: "Grid \<Rightarrow> int \<Rightarrow> int \<Rightarrow> Pos list" where
  "toExplode g rows cols = filter (\<lambda>(r, c). state (cellAt g r c) = BombHot) (positions rows cols)"

definition applyArm :: "Grid \<Rightarrow> Grid \<Rightarrow> Pos list \<Rightarrow> Grid" where
  "applyArm g nxt ps =
     foldl (\<lambda>nx (r, c). setCell nx r c \<lparr>state = BombArmed, team = team (cellAt g r c), health = None\<rparr>)
       nxt ps"

definition applyHot :: "Grid \<Rightarrow> Grid \<Rightarrow> Pos list \<Rightarrow> Grid" where
  "applyHot g nxt ps =
     foldl (\<lambda>nx (r, c). setCell nx r c \<lparr>state = BombHot, team = team (cellAt g r c), health = None\<rparr>)
       nxt ps"

subsection \<open>Explosions (lines 143-160)\<close>

fun collectAll :: "(nat \<Rightarrow> real) \<Rightarrow> nat \<Rightarrow> int \<Rightarrow> int \<Rightarrow> Pos list \<Rightarrow> Pos list \<Rightarrow> Pos list \<times> nat" where
  "collectAll rnd k rows cols [] acc = (acc, k)"
| "collectAll rnd k rows cols ((r, c) # ps) acc =
     (let (cells, k') = collectBlastCells rnd k r c rows cols
      in collectAll rnd k' rows cols ps (acc @ cells))"

text \<open>
  \<^verbatim>\<open>survive = !isBomb && Math.random() < BLAST_SURVIVAL_CHANCE\<close>: a bomb cell is cleared
  without a draw; any other cell draws once.
\<close>

fun applyBlast :: "(nat \<Rightarrow> real) \<Rightarrow> nat \<Rightarrow> int \<Rightarrow> int \<Rightarrow> Pos list \<Rightarrow> Grid \<Rightarrow> Grid \<times> nat" where
  "applyBlast rnd k rows cols [] nxt = (nxt, k)"
| "applyBlast rnd k rows cols ((br, bc) # ps) nxt =
     (if \<not> inBounds br bc rows cols then applyBlast rnd k rows cols ps nxt
      else if state (cellAt nxt br bc) = BombArmed \<or> state (cellAt nxt br bc) = BombHot
        then applyBlast rnd k rows cols ps (setCell nxt br bc emptyCell)
      else if rnd k < BLAST_SURVIVAL_CHANCE then applyBlast rnd (Suc k) rows cols ps nxt
      else applyBlast rnd (Suc k) rows cols ps (setCell nxt br bc emptyCell))"

text \<open>The working grid and the blast list after arming, advancing and exploding.\<close>

definition bombPhases :: "(nat \<Rightarrow> real) \<Rightarrow> nat \<Rightarrow> Grid \<Rightarrow> Grid \<times> Pos list \<times> nat" where
  "bombPhases rnd k g =
     (let rows = numRows g; cols = numCols g;
          nxt1 = applyArm g g (toArm g rows cols);
          nxt2 = applyHot g nxt1 (toHot g rows cols);
          ex = toExplode g rows cols;
          (blastCells, k1) = (if ex \<noteq> [] then collectAll rnd k rows cols ex [] else ([], k));
          (nxt3, k2) = applyBlast rnd k1 rows cols blastCells nxt2
      in (nxt3, blastCells, k2))"

subsection \<open>Replication scan (lines 162-193)\<close>

type_synonym Intent = "int \<times> int \<times> Team option"

text \<open>
  The inner \<^verbatim>\<open>for (const [dr, dc] of dirs)\<close> loop of one cell: \<open>Some\<close> is the intent
  pushed before \<^verbatim>\<open>break\<close>, \<open>None\<close> is a loop that ran out of directions.
\<close>

fun tryDirs :: "Grid \<Rightarrow> int \<Rightarrow> int \<Rightarrow> int \<Rightarrow> int \<Rightarrow> Team option \<Rightarrow> Pos list \<Rightarrow> Intent option" where
  "tryDirs g rows cols r c tm [] = None"
| "tryDirs g rows cols r c tm ((dr, dc) # dirs) =
     (let nr = r + dr; nc = c + dc in
      if \<not> inBounds nr nc rows cols then tryDirs g rows cols r c tm dirs
      else if state (cellAt g nr nc) = Empty then Some (nr, nc, tm)
      else if state (cellAt g nr nc) = Dot \<or> state (cellAt g nr nc) = Producer then
        (let rr = nr + dr; cc = nc + dc in
         if inBounds rr cc rows cols \<and> state (cellAt g rr cc) = Empty then Some (rr, cc, tm)
         else if team (cellAt g nr nc) \<noteq> tm then Some (nr, nc, tm)
         else tryDirs g rows cols r c tm dirs)
      else tryDirs g rows cols r c tm dirs)"

fun scanCells :: "(nat \<Rightarrow> real) \<Rightarrow> nat \<Rightarrow> Grid \<Rightarrow> int \<Rightarrow> int \<Rightarrow> Pos list \<Rightarrow> Intent list \<Rightarrow> Intent list \<times> nat" where
  "scanCells rnd k g rows cols [] intents = (intents, k)"
| "scanCells rnd k g rows cols ((r, c) # ps) intents =
     (if \<not> isDotLike (cellAt g r c) then scanCells rnd k g rows cols ps intents
      else
        (let (dirs, k') = shuffled rnd k CARDINALS
         in case tryDirs g rows cols r c (team (cellAt g r c)) dirs of
              None \<Rightarrow> scanCells rnd k' g rows cols ps intents
            | Some i \<Rightarrow> scanCells rnd k' g rows cols ps (intents @ [i])))"

definition replicationScan :: "(nat \<Rightarrow> real) \<Rightarrow> nat \<Rightarrow> Grid \<Rightarrow> Intent list \<times> nat" where
  "replicationScan rnd k g =
     scanCells rnd k g (numRows g) (numCols g) (positions (numRows g) (numCols g)) []"

subsection \<open>Intent resolution (lines 195-210)\<close>

definition healthOr0 :: "Cell \<Rightarrow> int" where
  "healthOr0 cell = (case health cell of None \<Rightarrow> 0 | Some h \<Rightarrow> h)"

definition resolveIntent :: "Grid \<Rightarrow> Intent \<Rightarrow> Grid" where
  "resolveIntent nxt i =
     (case i of (r, c, tm) \<Rightarrow>
        if state (cellAt nxt r c) = Empty
          then setCell nxt r c \<lparr>state = Dot, team = tm, health = Some 0\<rparr>
        else if team (cellAt nxt r c) \<noteq> None \<and> team (cellAt nxt r c) \<noteq> tm then
          (if healthOr0 (cellAt nxt r c) > 0
             then setCell nxt r c
                    ((cellAt nxt r c)\<lparr>health := Some (max 0 (healthOr0 (cellAt nxt r c) - 1))\<rparr>)
           else setCell nxt r c \<lparr>state = Dot, team = tm, health = Some 0\<rparr>)
        else nxt)"

subsection \<open>Line-of-five centers (lines 212-284)\<close>

definition segmentOk :: "Cell list \<Rightarrow> bool" where
  "segmentOk seg \<longleftrightarrow> list_all isDotLike seg \<and> length (remdups (map team seg)) = 1"

definition horizontalHits :: "Grid \<Rightarrow> int \<Rightarrow> int \<Rightarrow> Pos list" where
  "horizontalHits nxt rows cols =
     concat (map (\<lambda>r. map (\<lambda>c. (r, c + 2))
                        (filter (\<lambda>c. segmentOk (take 5 (drop (nat c) (nxt ! nat r)))) [0..cols - 5]))
               [0..rows - 1])"

definition verticalHits :: "Grid \<Rightarrow> int \<Rightarrow> int \<Rightarrow> Pos list" where
  "verticalHits nxt rows cols =
     concat (map (\<lambda>c. map (\<lambda>r. (r + 2, c))
                        (filter (\<lambda>r. segmentOk (map (\<lambda>i. cellAt nxt (r + i) c) [0..4])) [0..rows - 5]))
               [0..cols - 1])"

text \<open>\<^verbatim>\<open>centers\<close> is a \<^verbatim>\<open>Set\<close>: insertion order, no duplicates.\<close>

definition addCenter :: "Pos list \<Rightarrow> Pos \<Rightarrow> Pos list" where
  "addCenter cs p = (if p \<in> set cs then cs else cs @ [p])"

definition findCenters :: "Grid \<Rightarrow> int \<Rightarrow> int \<Rightarrow> Pos list" where
  "findCenters nxt rows cols =
     foldl addCenter [] (horizontalHits nxt rows cols @ verticalHits nxt rows cols)"

definition openNeighbors :: "Grid \<Rightarrow> int \<Rightarrow> int \<Rightarrow> int \<Rightarrow> int \<Rightarrow> Pos list" where
  "openNeighbors nxt rows cols r c =
     filter (\<lambda>(nr, nc). inBounds nr nc rows cols \<and> state (cellAt nxt nr nc) = Empty)
       (map (\<lambda>(dr, dc). (r + dr, c + dc)) CARDINALS)"

fun burstCorners :: "Grid \<Rightarrow> int \<Rightarrow> int \<Rightarrow> int \<Rightarrow> int \<Rightarrow> Team option \<Rightarrow> Pos list \<Rightarrow> Grid" where
  "burstCorners nxt rows cols r c tm [] = nxt"
| "burstCorners nxt rows cols r c tm ((dr, dc) # ds) =
     (let nr = r + dr; nc = c + dc in
      if \<not> inBounds nr nc rows cols then burstCorners nxt rows cols r c tm ds
      else if state (cellAt nxt nr nc) = Empty
        then burstCorners (setCell nxt nr nc \<lparr>state = Dot, team = tm, health = None\<rparr>) rows cols r c tm ds
      else if team (cellAt nxt nr nc) \<noteq> tm
        then burstCorners (setCell nxt nr nc \<lparr>state = Block, team = tm, health = None\<rparr>) rows cols r c tm ds
      else burstCorners (setCell nxt nr nc \<lparr>state = Block, team = tm, health = None\<rparr>) rows cols r c tm ds)"

definition resolveCenter :: "(nat \<Rightarrow> real) \<Rightarrow> nat \<Rightarrow> int \<Rightarrow> int \<Rightarrow> Grid \<Rightarrow> Pos \<Rightarrow> Grid \<times> nat" where
  "resolveCenter rnd k rows cols nxt p =
     (case p of (r, c) \<Rightarrow>
        if state (cellAt nxt r c) \<noteq> Dot then (nxt, k)
        else
          (let tm = team (cellAt nxt r c);
               opens = openNeighbors nxt rows cols r c
           in if opens \<noteq> [] then
                (let (sh, k') = shuffled rnd k opens;
                     (nr, nc) = hd sh;
                     nxt1 = setCell nxt nr nc \<lparr>state = Dot, team = tm, health = health (cellAt nxt r c)\<rparr>;
                     nxt2 = setCell nxt1 r c emptyCell
                 in (nxt2, k'))
              else (burstCorners (setCell nxt r c emptyCell) rows cols r c tm DIAGONALS, k)))"

fun resolveCenters :: "(nat \<Rightarrow> real) \<Rightarrow> nat \<Rightarrow> int \<Rightarrow> int \<Rightarrow> Pos list \<Rightarrow> Grid \<Rightarrow> Grid \<times> nat" where
  "resolveCenters rnd k rows cols [] nxt = (nxt, k)"
| "resolveCenters rnd k rows cols (p # ps) nxt =
     (let (nxt', k') = resolveCenter rnd k rows cols nxt p
      in resolveCenters rnd k' rows cols ps nxt')"

subsection \<open>One step\<close>

record StepResult =
  grid :: Grid
  blasts :: "Pos list"

definition stepGrid :: "(nat \<Rightarrow> real) \<Rightarrow> nat \<Rightarrow> Grid \<Rightarrow> StepResult \<times> nat" where
  "stepGrid rnd k g =
     (let rows = numRows g; cols = numCols g;
          (nxt3, blastCells, k2) = bombPhases rnd k g;
          (intents, k3) = replicationScan rnd k2 g;
          (shIntents, k4) = shuffled rnd k3 intents;
          nxt4 = foldl resolveIntent nxt3 shIntents;
          (shCenters, k5) = shuffled rnd k4 (findCenters nxt4 rows cols);
          (nxt5, k6) = resolveCenters rnd k5 rows cols shCenters nxt4
      in (\<lparr>grid = nxt5, blasts = blastCells\<rparr>, k6))"


section \<open>Seeding and reset (placeDot, handleDrop, resetGrid, lines 592-629)\<close>

text \<open>
  \<^verbatim>\<open>prev[r][c]\<close> is read without a bounds check; the handlers are attached to the cells
  that are rendered, so the position is inside the grid. Outside it the read throws, which
  is \<open>None\<close> here.
\<close>

definition placeDot :: "Team \<Rightarrow> int \<Rightarrow> int \<Rightarrow> Grid \<Rightarrow> Grid option" where
  "placeDot tm r c prev =
     (if \<not> (0 \<le> r \<and> nat r < length prev \<and> 0 \<le> c \<and> nat c < length (prev ! nat r)) then None
      else if state (cellAt prev r c) \<noteq> Empty then Some prev
      else Some (setCell prev r c \<lparr>state = Dot, team = Some tm, health = Some 0\<rparr>))"

definition handleDrop :: "bool \<Rightarrow> Team \<Rightarrow> int \<Rightarrow> int \<Rightarrow> Grid \<Rightarrow> Grid option" where
  "handleDrop isProducer tm r c prev =
     (if isProducer then
        (if \<not> (0 \<le> r \<and> nat r < length prev \<and> 0 \<le> c \<and> nat c < length (prev ! nat r)) then None
         else if state (cellAt prev r c) \<noteq> Empty then Some prev
         else Some (setCell prev r c \<lparr>state = Producer, team = Some tm, health = Some 0\<rparr>))
      else placeDot tm r c prev)"

definition resetGrid :: Grid where
  "resetGrid = createEmptyGrid ROWS COLS"

section \<open>The nutrient flow engine (pruneNutrients and runNutrients, lines 289-418)\<close>

text \<open>
  A new token's id is the string \<^verbatim>\<open>`${Date.now()}-${r}-${c}-${tick}-${Math.random()}`\<close>;
  the model keeps its five parts. \<open>clock n\<close> is what \<^verbatim>\<open>Date.now()\<close> returns when
  \<open>n\<close> random draws have been made.
\<close>

type_synonym NutrientId = "int \<times> int \<times> int \<times> int \<times> real"

record Nutrient =
  n_id :: NutrientId
  n_r :: int
  n_c :: int
  n_team :: Team
  n_dir :: Pos
  n_prev :: "Pos option"

definition hasEnemyNeighbor :: "Grid \<Rightarrow> int \<Rightarrow> int \<Rightarrow> Team option \<Rightarrow> bool" where
  "hasEnemyNeighbor g r c tm =
     (case tm of
        None \<Rightarrow> False
      | Some t \<Rightarrow>
          list_ex (\<lambda>(dr, dc). inBounds (r + dr) (c + dc) (numRows g) (numCols g)
                     \<and> team (cellAt g (r + dr) (c + dc)) \<noteq> None
                     \<and> team (cellAt g (r + dr) (c + dc)) \<noteq> Some t
                     \<and> state (cellAt g (r + dr) (c + dc)) \<noteq> Empty) CARDINALS)"

definition pruneNutrients :: "Grid \<Rightarrow> Nutrient list \<Rightarrow> Nutrient list" where
  "pruneNutrients g ns =
     filter (\<lambda>n. inBounds (n_r n) (n_c n) (numRows g) (numCols g)
                \<and> state (cellAt g (n_r n) (n_c n)) = Block
                \<and> team (cellAt g (n_r n) (n_c n)) = Some (n_team n)) ns"

definition bumpHealth :: "Grid \<Rightarrow> int \<Rightarrow> int \<Rightarrow> Grid" where
  "bumpHealth nxt r c =
     setCell nxt r c ((cellAt nxt r c)\<lparr>health := Some (min MAX_HEALTH (healthOr0 (cellAt nxt r c) + 1))\<rparr>)"

definition feedDot :: "Grid \<Rightarrow> int \<Rightarrow> int \<Rightarrow> Team \<Rightarrow> Grid \<times> bool" where
  "feedDot nxt nr nc tm =
     (if team (cellAt nxt nr nc) \<noteq> Some tm \<or> \<not> isDotLike (cellAt nxt nr nc) then (nxt, False)
      else
        (let nxt1 = bumpHealth nxt nr nc
         in if \<not> hasEnemyNeighbor nxt1 nr nc (Some tm)
              then (setCell nxt1 nr nc ((cellAt nxt1 nr nc)\<lparr>state := Producer\<rparr>), True)
            else (nxt1, True)))"

definition friendlyDots :: "Grid \<Rightarrow> int \<Rightarrow> int \<Rightarrow> int \<Rightarrow> int \<Rightarrow> Team \<Rightarrow> Pos list" where
  "friendlyDots nxt rows cols r c tm =
     filter (\<lambda>(nr, nc). inBounds nr nc rows cols
                \<and> team (cellAt nxt nr nc) = Some tm \<and> isDotLike (cellAt nxt nr nc))
       (map (\<lambda>(dr, dc). (r + dr, c + dc)) CARDINALS)"

definition handleDeadEnd :: "Grid \<Rightarrow> int \<Rightarrow> int \<Rightarrow> Nutrient \<Rightarrow> Grid" where
  "handleDeadEnd nxt rows cols n =
     (case friendlyDots nxt rows cols (n_r n) (n_c n) (n_team n) of
        [] \<Rightarrow> nxt
      | (nr, nc) # _ \<Rightarrow> fst (feedDot nxt nr nc (n_team n)))"

definition wallNeighborDirs :: "Grid \<Rightarrow> int \<Rightarrow> int \<Rightarrow> int \<Rightarrow> int \<Rightarrow> Team \<Rightarrow> Pos option \<Rightarrow> Pos list" where
  "wallNeighborDirs nxt rows cols r c tm prv =
     (let dirs = filter (\<lambda>(dr, dc). inBounds (r + dr) (c + dc) rows cols
                            \<and> state (cellAt nxt (r + dr) (c + dc)) = Block
                            \<and> team (cellAt nxt (r + dr) (c + dc)) = Some tm) CARDINALS
      in case prv of
           None \<Rightarrow> dirs
         | Some (p0, p1) \<Rightarrow>
             if length dirs > 1 then filter (\<lambda>(dr, dc). \<not> (dr = - p0 \<and> dc = - p1)) dirs else dirs)"

text \<open>
  The state of the \<^verbatim>\<open>nutrients.forEach\<close> loop: the working grid, \<^verbatim>\<open>nextNutrients\<close>,
  the \<^verbatim>\<open>occupied\<close> map and the number of draws. \<^verbatim>\<open>occupied.get(key) ?? 0\<close> is
  \<open>occCount\<close>.
\<close>

type_synonym FlowState = "Grid \<times> Nutrient list \<times> (Pos \<rightharpoonup> nat) \<times> nat"

definition occCount :: "(Pos \<rightharpoonup> nat) \<Rightarrow> Pos \<Rightarrow> nat" where
  "occCount occ key = (case occ key of None \<Rightarrow> 0 | Some n \<Rightarrow> n)"

definition moveNutrient :: "(nat \<Rightarrow> real) \<Rightarrow> int \<Rightarrow> int \<Rightarrow> FlowState \<Rightarrow> Nutrient \<Rightarrow> FlowState" where
  "moveNutrient rnd rows cols st n =
     (case st of (nxt, out, occ, k) \<Rightarrow>
        if \<not> inBounds (n_r n) (n_c n) rows cols
           \<or> state (cellAt nxt (n_r n) (n_c n)) \<noteq> Block
           \<or> team (cellAt nxt (n_r n) (n_c n)) \<noteq> Some (n_team n)
          then st
        else
          (let dirs = wallNeighborDirs nxt rows cols (n_r n) (n_c n) (n_team n) (Some (n_dir n))
           in if dirs = [] then (handleDeadEnd nxt rows cols n, out, occ, k)
              else
                (let (sh, k') = shuffled rnd k dirs;
                     (dr, dc) = hd sh;
                     nr = n_r n + dr;
                     nc = n_c n + dc;
                     count = occCount occ (nr, nc)
                 in if count \<ge> MAX_NUTRIENTS_PER_CELL
                      then (nxt, out @ [n],
                            occ((n_r n, n_c n) \<mapsto> occCount occ (n_r n, n_c n) + 1), k')
                    else (nxt,
                          out @ [n\<lparr>n_r := nr, n_c := nc, n_prev := Some (n_dir n), n_dir := (dr, dc)\<rparr>],
                          occ((nr, nc) \<mapsto> count + 1), k'))))"

text \<open>The producer loop (lines 391-415); the grid is only read.\<close>

fun emitLoop :: "(nat \<Rightarrow> real) \<Rightarrow> (nat \<Rightarrow> int) \<Rightarrow> Grid \<Rightarrow> int \<Rightarrow> int \<Rightarrow> int \<Rightarrow> Pos list
    \<Rightarrow> Nutrient list \<times> (Pos \<rightharpoonup> nat) \<times> nat \<Rightarrow> Nutrient list \<times> (Pos \<rightharpoonup> nat) \<times> nat" where
  "emitLoop rnd clock nxt rows cols tick [] st = st"
| "emitLoop rnd clock nxt rows cols tick ((r, c) # ps) (out, occ, k) =
     (case team (cellAt nxt r c) of
        None \<Rightarrow> emitLoop rnd clock nxt rows cols tick ps (out, occ, k)
      | Some tm \<Rightarrow>
          if state (cellAt nxt r c) \<noteq> Producer then emitLoop rnd clock nxt rows cols tick ps (out, occ, k)
          else
            (let dirs = wallNeighborDirs nxt rows cols r c tm None
             in if dirs = [] then emitLoop rnd clock nxt rows cols tick ps (out, occ, k)
                else
                  (let (sh, k') = shuffled rnd k dirs;
                       (dr, dc) = hd sh;
                       nr = r + dr;
                       nc = c + dc;
                       count = occCount occ (nr, nc)
                   in if count \<ge> MAX_NUTRIENTS_PER_CELL
                        then emitLoop rnd clock nxt rows cols tick ps (out, occ, k')
                      else emitLoop rnd clock nxt rows cols tick ps
                             (out @ [\<lparr>n_id = (clock k', r, c, tick, rnd k'), n_r = nr, n_c = nc,
                                      n_team = tm, n_dir = (dr, dc), n_prev = None\<rparr>],
                              occ((nr, nc) \<mapsto> count + 1), Suc k'))))"

record FlowResult =
  ngrid :: Grid
  nutrients :: "Nutrient list"

definition runNutrients :: "(nat \<Rightarrow> real) \<Rightarrow> (nat \<Rightarrow> int) \<Rightarrow> nat \<Rightarrow> Grid \<Rightarrow> Nutrient list \<Rightarrow> int
    \<Rightarrow> FlowResult \<times> nat" where
  "runNutrients rnd clock k g ns tick =
     (let rows = numRows g; cols = numCols g;
          (nxt, out, occ, k1) = foldl (moveNutrient rnd rows cols) (g, [], Map.empty, k) ns;
          (out2, occ2, k2) =
            (if tick mod PRODUCE_EVERY = 0
               then emitLoop rnd clock nxt rows cols tick (positions rows cols) (out, occ, k1)
             else (out, occ, k1))
      in (\<lparr>ngrid = nxt, nutrients = out2\<rparr>, k2))"

section \<open>Invariants and reachable grids\<close>

text \<open>
  A cell is in order when an empty cell has no team, any other cell has one, and its health
  (an absent health counting as 0) lies between 0 and \<open>MAX_HEALTH\<close>.
\<close>

definition okCell :: "Cell \<Rightarrow> bool" where
  "okCell cell \<longleftrightarrow> (state cell = Empty \<longrightarrow> team cell = None)
     \<and> (state cell \<noteq> Empty \<longrightarrow> team cell \<noteq> None)
     \<and> 0 \<le> healthOr0 cell \<and> healthOr0 cell \<le> MAX_HEALTH"

definition cellsOk :: "Grid \<Rightarrow> bool" where
  "cellsOk g \<longleftrightarrow> list_all (list_all okCell) g"

text \<open>A working grid has the shape of the grid it was cloned from.\<close>

definition shape :: "int \<Rightarrow> int \<Rightarrow> Grid \<Rightarrow> bool" where
  "shape rows cols g \<longleftrightarrow> wfGrid g \<and> numRows g = rows \<and> numCols g = cols"

text \<open>
  What the replication scan guarantees of an intent: its target is a cell of the grid that
  the scanned grid shows empty or as a dot or producer, and its team is the team of a dot
  or producer of the scanned grid.
\<close>

definition intentFrom :: "Grid \<Rightarrow> int \<Rightarrow> int \<Rightarrow> Intent \<Rightarrow> bool" where
  "intentFrom g rows cols i \<longleftrightarrow>
     (case i of (r, c, tm) \<Rightarrow>
        inBounds r c rows cols
        \<and> (state (cellAt g r c) = Empty \<or> isDotLike (cellAt g r c))
        \<and> list_ex (\<lambda>(r0, c0). isDotLike (cellAt g r0 c0) \<and> team (cellAt g r0 c0) = tm)
             (positions rows cols))"

text \<open>
  The grids the application can hold: the initial 24x24 empty grid, and what a rule step,
  a nutrient step, a click, a drop or a reset makes of a grid it can hold.
\<close>

inductive reachable :: "Grid \<Rightarrow> bool" where
  reach_init: "reachable (createEmptyGrid ROWS COLS)"
| reach_step: "reachable g \<Longrightarrow> unitRnd rnd \<Longrightarrow> reachable (grid (fst (stepGrid rnd k g)))"
| reach_flow: "reachable g \<Longrightarrow> unitRnd rnd
     \<Longrightarrow> reachable (ngrid (fst (runNutrients rnd clock k g ns tick)))"
| reach_click: "reachable g \<Longrightarrow> placeDot tm r c g = Some g' \<Longrightarrow> reachable g'"
| reach_drop: "reachable g \<Longrightarrow> handleDrop isProducer tm r c g = Some g' \<Longrightarrow> reachable g'"
| reach_reset: "reachable g \<Longrightarrow> reachable resetGrid"

text \<open>
  A token is at a dead end of a grid when it sits on a wall cell of its team that has no
  cardinal wall neighbor of that team. Feeding never makes or removes a wall, which
  \<open>sameWalls\<close> records for the working grid of the token loop.
\<close>

definition deadEnd :: "Grid \<Rightarrow> Nutrient \<Rightarrow> bool" where
  "deadEnd g n \<longleftrightarrow>
     inBounds (n_r n) (n_c n) (numRows g) (numCols g)
     \<and> state (cellAt g (n_r n) (n_c n)) = Block
     \<and> team (cellAt g (n_r n) (n_c n)) = Some (n_team n)
     \<and> filter (\<lambda>(dr, dc). inBounds (n_r n + dr) (n_c n + dc) (numRows g) (numCols g)
                  \<and> state (cellAt g (n_r n + dr) (n_c n + dc)) = Block
                  \<and> team (cellAt g (n_r n + dr) (n_c n + dc)) = Some (n_team n)) CARDINALS = []"

definition wallAt :: "Grid \<Rightarrow> int \<Rightarrow> int \<Rightarrow> Team option option" where
  "wallAt g r c = (if state (cellAt g r c) = Block then Some (team (cellAt g r c)) else None)"

definition sameWalls :: "Grid \<Rightarrow> Grid \<Rightarrow> bool" where
  "sameWalls g nxt \<longleftrightarrow>
     shape (numRows g) (numCols g) nxt
     \<and> list_all (\<lambda>(r, c). wallAt nxt r c = wallAt g r c) (positions (numRows g) (numCols g))"

text \<open>
  The grid after a dead-end token \<open>m\<close> has fed, written out over the four neighbors of the
  token and the four neighbors of the fed cell.
\<close>

definition fedGrid :: "int \<Rightarrow> int \<Rightarrow> Grid \<Rightarrow> Nutrient \<Rightarrow> Grid" where
  "fedGrid rows cols gr m =
     (case filter (\<lambda>(fr, fc). inBounds fr fc rows cols \<and> team (cellAt gr fr fc) = Some (n_team m)
                      \<and> (state (cellAt gr fr fc) = Dot \<or> state (cellAt gr fr fc) = Producer))
             [(n_r m + 1, n_c m), (n_r m - 1, n_c m), (n_r m, n_c m + 1), (n_r m, n_c m - 1)] of
        [] \<Rightarrow> gr
      | (fr, fc) # _ \<Rightarrow>
          setCell gr fr fc
            \<lparr>state = (if (\<exists>(er, ec) \<in> set [(fr + 1, fc), (fr - 1, fc), (fr, fc + 1), (fr, fc - 1)].
                            inBounds er ec rows cols \<and> team (cellAt gr er ec) \<noteq> None
                            \<and> team (cellAt gr er ec) \<noteq> Some (n_team m)
                            \<and> state (cellAt gr er ec) \<noteq> Empty)
                       then state (cellAt gr fr fc) else Producer),
             team = Some (n_team m),
             health = Some (min 3 ((case health (cellAt gr fr fc) of None \<Rightarrow> 0 | Some h \<Rightarrow> h) + 1))\<rparr>)"

section \<open>Reading and writing grid cells\<close>

lemma cellAt_setCell_same:
  "0 \<le> r \<Longrightarrow> nat r < length g \<Longrightarrow> 0 \<le> c \<Longrightarrow> nat c < length (g ! nat r)
   \<Longrightarrow> cellAt (setCell g r c v) r c = v"
  by (simp add: cellAt_def setCell_def)

lemma cellAt_setCell_other:
  "0 \<le> r \<Longrightarrow> 0 \<le> c \<Longrightarrow> 0 \<le> r' \<Longrightarrow> 0 \<le> c' \<Longrightarrow> (r, c) \<noteq> (r', c')
   \<Longrightarrow> cellAt (setCell g r c v) r' c' = cellAt g r' c'"
  by (cases "nat r < length g"; cases "r = r'")
     (auto simp: cellAt_def setCell_def nth_list_update list_update_beyond)

lemma inBounds_range:
  "wfGrid g \<Longrightarrow> inBounds r c (numRows g) (numCols g)
   \<Longrightarrow> 0 \<le> r \<and> nat r < length g \<and> 0 \<le> c \<and> nat c < length (g ! nat r)"
  by (auto simp: wfGrid_def inBounds_def numRows_def numCols_def list_all_length)

lemma setCell_setCell: "setCell (setCell g r c v) r c v' = setCell g r c v'"
  by (cases "nat r < length g") (simp_all add: setCell_def list_update_beyond)

lemma numRows_setCell: "numRows (setCell g r c v) = numRows g"
  by (simp add: numRows_def setCell_def)

lemma numCols_setCell: "numCols (setCell g r c v) = numCols g"
  by (cases g; cases "nat r") (simp_all add: numCols_def setCell_def)

lemma wfGrid_setCell: "wfGrid g \<Longrightarrow> wfGrid (setCell g r c v)"
proof -
  assume wf: "wfGrid g"
  have len: "length (hd (setCell g r c v)) = length (hd g)"
    using numCols_setCell [of g r c v] by (simp add: numCols_def)
  have ne: "setCell g r c v \<noteq> []"
    using wf by (simp add: wfGrid_def setCell_def)
  have rows: "\<forall>n<length g. length (g ! n) = length (hd g)"
    using wf by (simp add: wfGrid_def list_all_length)
  have "\<forall>n<length (setCell g r c v). length (setCell g r c v ! n) = length (hd g)"
  proof (intro allI impI)
    fix n assume "n < length (setCell g r c v)"
    then have n: "n < length g" by (simp add: setCell_def)
    with rows have "length (g ! n) = length (hd g)" by blast
    with n show "length (setCell g r c v ! n) = length (hd g)"
      by (cases "n = nat r") (simp_all add: setCell_def)
  qed
  with ne show ?thesis
    unfolding wfGrid_def list_all_length len by simp
qed

section \<open>Replication scan: attack and line extension\<close>

text \<open>
  Claim C1, as amended. When the neighbor a cell tries is a dot or producer, of either
  team, the scan first looks at the cell beyond it in the same direction and, if that
  cell is inside the grid and empty, emits a spawn intent there and stops. Only when the
  cell beyond is not an empty cell of the grid does the team of the neighbor matter: an
  opposing neighbor gets an attack intent and the scan stops, a neighbor of the mover's
  own team makes the scan try the next direction.
\<close>

theorem replication_direction:
  assumes "inBounds (r + dr) (c + dc) rows cols"
    and "isDotLike (cellAt g (r + dr) (c + dc))"
  shows "tryDirs g rows cols r c tm ((dr, dc) # dirs) =
           (if inBounds (r + dr + dr) (c + dc + dc) rows cols
               \<and> state (cellAt g (r + dr + dr) (c + dc + dc)) = Empty
              then Some (r + dr + dr, c + dc + dc, tm)
            else if team (cellAt g (r + dr) (c + dc)) \<noteq> tm
              then Some (r + dr, c + dc, tm)
            else tryDirs g rows cols r c tm dirs)"
  using assms by (auto simp: isDotLike_def Let_def)

text \<open>
  A witness: a blue dot at \<open>(0, 0)\<close> of a one-row grid whose right neighbor is a green dot
  at the edge attacks it.
\<close>

theorem replication_direction_witness:
  "tryDirs [ [\<lparr>state = Dot, team = Some Blue, health = Some 0\<rparr>,
             \<lparr>state = Dot, team = Some Green, health = Some 0\<rparr>]] 1 2 0 0 (Some Blue) [(0, 1)]
     = Some (0, 1, Some Blue)"
  using replication_direction [of 0 0 0 1 1 2
      "[ [\<lparr>state = Dot, team = Some Blue, health = Some 0\<rparr>,
         \<lparr>state = Dot, team = Some Green, health = Some 0\<rparr>]]" "Some Blue" "[]"]
  by (simp add: inBounds_def cellAt_def isDotLike_def)

text \<open>
  The claim as stated fails: the blue dot at \<open>(0, 0)\<close> tries the direction \<open>(0, 1)\<close>, its
  neighbor is a green dot, the cell beyond is empty, and the intent is a spawn at \<open>(0, 2)\<close>,
  not an attack at \<open>(0, 1)\<close>.
\<close>

theorem attack_after_line_extension_counterexample:
  "isDotLike (cellAt [ [\<lparr>state = Dot, team = Some Blue, health = Some 0\<rparr>,
                       \<lparr>state = Dot, team = Some Green, health = Some 0\<rparr>,
                       emptyCell]] 0 1)
   \<and> team (cellAt [ [\<lparr>state = Dot, team = Some Blue, health = Some 0\<rparr>,
                     \<lparr>state = Dot, team = Some Green, health = Some 0\<rparr>,
                     emptyCell]] 0 1) \<noteq> Some Blue
   \<and> tryDirs [ [\<lparr>state = Dot, team = Some Blue, health = Some 0\<rparr>,
               \<lparr>state = Dot, team = Some Green, health = Some 0\<rparr>,
               emptyCell]] 1 3 0 0 (Some Blue) [(0, 1)]
       = Some (0, 2, Some Blue)
   \<and> tryDirs [ [\<lparr>state = Dot, team = Some Blue, health = Some 0\<rparr>,
               \<lparr>state = Dot, team = Some Green, health = Some 0\<rparr>,
               emptyCell]] 1 3 0 0 (Some Blue) [(0, 1)]
       \<noteq> Some (0, 1, Some Blue)"
  by (simp add: emptyCell_def inBounds_def cellAt_def isDotLike_def)

section \<open>Blast footprint\<close>

lemma spillLoop_char:
  "spillLoop rnd k rows cols cs acc =
     (acc @ map ((!) (filter (\<lambda>(nr, nc). inBounds nr nc rows cols) cs))
              (filter (\<lambda>i. rnd (k + i) < SPILL_CHANCE)
                 [0..<length (filter (\<lambda>(nr, nc). inBounds nr nc rows cols) cs)]),
      k + length (filter (\<lambda>(nr, nc). inBounds nr nc rows cols) cs))"
proof (induction cs arbitrary: k acc)
  case Nil
  then show ?case by simp
next
  case (Cons p cs)
  obtain nr nc where p: "p = (nr, nc)" by (cases p)
  let ?inb = "filter (\<lambda>(nr, nc). inBounds nr nc rows cols) cs"
  have shift: "map ((!) (p # ?inb)) (filter (\<lambda>i. rnd (k + i) < SPILL_CHANCE) (map Suc [0..<length ?inb]))
      = map ((!) ?inb) (filter (\<lambda>i. rnd (Suc k + i) < SPILL_CHANCE) [0..<length ?inb])"
    by (simp add: filter_map comp_def)
  have upt: "[0..<Suc (length ?inb)] = 0 # map Suc [0..<length ?inb]"
    by (simp add: upt_conv_Cons map_Suc_upt del: upt_Suc)
  show ?case
  proof (cases "inBounds nr nc rows cols")
    case False
    then show ?thesis using Cons.IH [of k acc] by (simp add: p)
  next
    case True
    show ?thesis
      using True Cons.IH [of "Suc k"] shift
      by (simp add: p upt del: upt_Suc)
  qed
qed

lemma blastSquare_set:
  "set (blastSquare r c rows cols)
       = {(nr, nc). \<bar>nr - r\<bar> \<le> 1 \<and> \<bar>nc - c\<bar> \<le> 1 \<and> inBounds nr nc rows cols}"
proof -
  have "\<bar>nr - r\<bar> \<le> 1 \<longleftrightarrow> nr = r + - 1 \<or> nr = r + 0 \<or> nr = r + 1" for nr :: int
    by arith
  moreover have "\<bar>nc - c\<bar> \<le> 1 \<longleftrightarrow> nc = c + - 1 \<or> nc = c + 0 \<or> nc = c + 1" for nc :: int
    by arith
  ultimately show ?thesis
    unfolding blastSquare_def by (simp only: set_filter set_concat set_map) auto
qed

lemma spillCandidates_shape:
  "length (spillCandidates r c) = 8 \<and> distinct (spillCandidates r c)
   \<and> list_all (\<lambda>(nr, nc). \<bar>nr - r\<bar> + \<bar>nc - c\<bar> = 2) (spillCandidates r c)
   \<and> list_all (\<lambda>(nr, nc). \<not> (\<bar>nr - r\<bar> \<le> 1 \<and> \<bar>nc - c\<bar> \<le> 1)) (take 4 (spillCandidates r c))
   \<and> list_all (\<lambda>(nr, nc). \<bar>nr - r\<bar> = 1 \<and> \<bar>nc - c\<bar> = 1) (drop 4 (spillCandidates r c))"
  by (simp add: spillCandidates_def)

text \<open>
  Claim C3, as amended. The footprint of a bomb at \<open>(r, c)\<close> is the list of the cells of
  the 3x3 square around it that are inside the grid, followed by the spillover cells that
  were drawn. There are 8 distinct spillover candidates, all at Manhattan distance 2 from
  the bomb; each candidate inside the grid has a draw of its own (the \<open>i\<close>-th of them the
  draw number \<open>k + i\<close>) and is included exactly when that draw is below 0.25. The first
  four candidates, two steps away along a row or a column, lie outside the 3x3 square; the
  last four are the diagonal neighbors of the bomb, the corners of the 3x3 square.
\<close>

theorem blast_footprint:
  "fst (collectBlastCells rnd k r c rows cols) =
     blastSquare r c rows cols
     @ map ((!) (filter (\<lambda>(nr, nc). inBounds nr nc rows cols) (spillCandidates r c)))
         (filter (\<lambda>i. rnd (k + i) < 25 / 100)
            [0..<length (filter (\<lambda>(nr, nc). inBounds nr nc rows cols) (spillCandidates r c))])
   \<and> set (blastSquare r c rows cols)
       = {(nr, nc). \<bar>nr - r\<bar> \<le> 1 \<and> \<bar>nc - c\<bar> \<le> 1 \<and> inBounds nr nc rows cols}
   \<and> length (spillCandidates r c) = 8 \<and> distinct (spillCandidates r c)
   \<and> list_all (\<lambda>(nr, nc). \<bar>nr - r\<bar> + \<bar>nc - c\<bar> = 2) (spillCandidates r c)
   \<and> list_all (\<lambda>(nr, nc). \<not> (\<bar>nr - r\<bar> \<le> 1 \<and> \<bar>nc - c\<bar> \<le> 1)) (take 4 (spillCandidates r c))
   \<and> list_all (\<lambda>(nr, nc). \<bar>nr - r\<bar> = 1 \<and> \<bar>nc - c\<bar> = 1) (drop 4 (spillCandidates r c))"
proof -
  have "fst (collectBlastCells rnd k r c rows cols) =
     blastSquare r c rows cols
     @ map ((!) (filter (\<lambda>(nr, nc). inBounds nr nc rows cols) (spillCandidates r c)))
         (filter (\<lambda>i. rnd (k + i) < 25 / 100)
            [0..<length (filter (\<lambda>(nr, nc). inBounds nr nc rows cols) (spillCandidates r c))])"
    unfolding collectBlastCells_def spillLoop_char SPILL_CHANCE_def by (rule fst_conv)
  with blastSquare_set [of r c rows cols] spillCandidates_shape [of r c] show ?thesis
    by blast
qed

text \<open>
  The claim as stated fails: for a bomb at \<open>(1, 1)\<close> of a 3x3 grid the spillover candidate
  \<open>(2, 2)\<close> is a cell of the 3x3 square, and with every draw at 0 the footprint lists it,
  and the three other corners, twice.
\<close>

theorem spill_inside_square_counterexample:
  "(2, 2) \<in> set (spillCandidates 1 1) \<and> (2, 2) \<in> set (blastSquare 1 1 3 3)
   \<and> fst (collectBlastCells (\<lambda>n. 0) 0 1 1 3 3)
       = [(0, 0), (0, 1), (0, 2), (1, 0), (1, 1), (1, 2), (2, 0), (2, 1), (2, 2),
          (2, 2), (2, 0), (0, 2), (0, 0)]"
  by (simp add: collectBlastCells_def spillCandidates_def blastSquare_def inBounds_def SPILL_CHANCE_def)

section \<open>Seeding\<close>

text \<open>
  Claim C10. Seeding an empty cell of the grid, by a click (\<open>placeDot\<close>) or by a drop
  (\<open>handleDrop\<close>, of a dot chip or of a producer chip), succeeds and leaves at the target
  a cell of the seeded team and kind whose health is exactly 0.
\<close>

theorem seeding_health_zero:
  assumes "0 \<le> r" and "nat r < length g" and "0 \<le> c" and "nat c < length (g ! nat r)"
    and "state (cellAt g r c) = Empty"
  shows "(\<exists>g'. placeDot tm r c g = Some g'
            \<and> cellAt g' r c = \<lparr>state = Dot, team = Some tm, health = Some 0\<rparr>)
       \<and> (\<exists>g'. handleDrop isProducer tm r c g = Some g'
            \<and> cellAt g' r c = \<lparr>state = (if isProducer then Producer else Dot),
                                 team = Some tm, health = Some 0\<rparr>)"
  using assms by (simp add: placeDot_def handleDrop_def cellAt_setCell_same)

theorem seeding_health_zero_witness:
  "(\<exists>g'. placeDot Blue 0 1 (createEmptyGrid 2 2) = Some g'
           \<and> cellAt g' 0 1 = \<lparr>state = Dot, team = Some Blue, health = Some 0\<rparr>)
   \<and> (\<exists>g'. handleDrop True Blue 0 1 (createEmptyGrid 2 2) = Some g'
           \<and> cellAt g' 0 1 = \<lparr>state = Producer, team = Some Blue, health = Some 0\<rparr>)"
  using seeding_health_zero [of 0 "createEmptyGrid 2 2" 1 Blue True]
  by (simp add: createEmptyGrid_def cellAt_def emptyCell_def)

section \<open>Feeding a dot\<close>

lemma hasEnemyNeighbor_setCell:
  assumes "0 \<le> r" "0 \<le> c"
  shows "hasEnemyNeighbor (setCell g r c v) r c tm = hasEnemyNeighbor g r c tm"
proof (cases tm)
  case None
  then show ?thesis by (simp add: hasEnemyNeighbor_def)
next
  case (Some t)
  have same: "cellAt (setCell g r c v) (r + dr) (c + dc) = cellAt g (r + dr) (c + dc)"
    if "(dr, dc) \<in> set CARDINALS" "inBounds (r + dr) (c + dc) (numRows g) (numCols g)" for dr dc
    using that assms by (intro cellAt_setCell_other) (auto simp: CARDINALS_def inBounds_def)
  show ?thesis
    unfolding hasEnemyNeighbor_def Some option.case numRows_setCell numCols_setCell
    by (rule list_ex_cong [OF refl]) (auto simp: same)
qed

lemma filter_neq_nonempty:
  assumes "distinct xs" and "length xs > 1"
  shows "filter (\<lambda>x. x \<noteq> a) xs \<noteq> []"
proof
  assume "filter (\<lambda>x. x \<noteq> a) xs = []"
  then have "set xs \<subseteq> {a}" by (auto simp: filter_empty_conv)
  then have "card (set xs) \<le> card {a}" by (intro card_mono) simp_all
  with assms show False by (simp add: distinct_card)
qed

lemma wallNeighborDirs_empty:
  "wallNeighborDirs nxt rows cols r c tm prv = [] \<longleftrightarrow>
     filter (\<lambda>(dr, dc). inBounds (r + dr) (c + dc) rows cols
               \<and> state (cellAt nxt (r + dr) (c + dc)) = Block
               \<and> team (cellAt nxt (r + dr) (c + dc)) = Some tm) CARDINALS = []"
proof -
  define dirs where "dirs = filter (\<lambda>(dr, dc). inBounds (r + dr) (c + dc) rows cols
               \<and> state (cellAt nxt (r + dr) (c + dc)) = Block
               \<and> team (cellAt nxt (r + dr) (c + dc)) = Some tm) CARDINALS"
  have d: "distinct dirs" by (simp add: dirs_def CARDINALS_def)
  have eq: "(\<lambda>(dr, dc). \<not> (dr = - p0 \<and> dc = - p1)) = (\<lambda>x. x \<noteq> (- p0, - p1))" for p0 p1 :: int
    by auto
  show ?thesis
  proof (cases prv)
    case None
    then show ?thesis by (simp add: wallNeighborDirs_def)
  next
    case (Some p)
    obtain p0 p1 where p: "p = (p0, p1)" by (cases p)
    have w: "wallNeighborDirs nxt rows cols r c tm prv =
       (if length dirs > 1 then filter (\<lambda>x. x \<noteq> (- p0, - p1)) dirs else dirs)"
      unfolding wallNeighborDirs_def Some p dirs_def [symmetric] Let_def option.case prod.case eq ..
    show ?thesis
      unfolding w dirs_def [symmetric]
      using filter_neq_nonempty [OF d, of "(- p0, - p1)"]
      by (cases "length dirs > 1") auto
  qed
qed


lemma friendlyDots_hd:
  assumes "friendlyDots nxt rows cols r c tm = (fr, fc) # rest"
  shows "inBounds fr fc rows cols \<and> team (cellAt nxt fr fc) = Some tm \<and> isDotLike (cellAt nxt fr fc)"
proof -
  have "(fr, fc) \<in> set (friendlyDots nxt rows cols r c tm)" by (simp add: assms)
  then show ?thesis unfolding friendlyDots_def by auto
qed

lemma feedDot_result:
  assumes wf: "wfGrid nxt" and inb: "inBounds fr fc (numRows nxt) (numCols nxt)"
    and tm: "team (cellAt nxt fr fc) = Some tm" and dl: "isDotLike (cellAt nxt fr fc)"
  shows "fst (feedDot nxt fr fc tm) =
     setCell nxt fr fc
       \<lparr>state = (if hasEnemyNeighbor nxt fr fc (Some tm) then state (cellAt nxt fr fc) else Producer),
        team = Some tm,
        health = Some (min 3 (healthOr0 (cellAt nxt fr fc) + 1))\<rparr>"
proof -
  from inBounds_range [OF wf inb]
  have rng: "0 \<le> fr" "nat fr < length nxt" "0 \<le> fc" "nat fc < length (nxt ! nat fr)" by simp_all
  have bumped: "cellAt (bumpHealth nxt fr fc) fr fc =
      (cellAt nxt fr fc)\<lparr>health := Some (min 3 (healthOr0 (cellAt nxt fr fc) + 1))\<rparr>"
    unfolding bumpHealth_def MAX_HEALTH_def by (rule cellAt_setCell_same [OF rng])
  have enemy: "hasEnemyNeighbor (bumpHealth nxt fr fc) fr fc (Some tm) = hasEnemyNeighbor nxt fr fc (Some tm)"
    unfolding bumpHealth_def by (rule hasEnemyNeighbor_setCell [OF rng(1) rng(3)])
  have upd: "(cellAt nxt fr fc)\<lparr>health := h\<rparr> =
      \<lparr>state = state (cellAt nxt fr fc), team = Some tm, health = h\<rparr>" for h
    using tm by (cases "cellAt nxt fr fc") simp
  show ?thesis
  proof (cases "hasEnemyNeighbor nxt fr fc (Some tm)")
    case True
    then show ?thesis
      using tm dl enemy by (simp add: feedDot_def Let_def) (simp add: bumpHealth_def MAX_HEALTH_def upd)
  next
    case False
    then show ?thesis
      using tm dl enemy
      by (simp add: feedDot_def Let_def bumped) (simp add: bumpHealth_def setCell_setCell upd)
  qed
qed

section \<open>Occupancy of wall cells by tokens\<close>

text \<open>
  Claim C6 on a row of three blue walls with one token on each, processed in the order
  left, right, middle. The left token moves onto the middle cell. The right token wants the
  middle cell, finds it claimed and waits. The middle token, heading right, wants the right
  cell, finds it claimed and waits in place, on the cell the left token has just taken:
  the returned tokens 1 and 3 are both at \<open>(0, 1)\<close>.
\<close>

theorem occupancy_cap_exceeded:
  "map (\<lambda>n. (n_id n, n_r n, n_c n))
     (nutrients (fst (runNutrients (\<lambda>n. 0) (\<lambda>n. 0) 0
        [ [\<lparr>state = Block, team = Some Blue, health = None\<rparr>,
          \<lparr>state = Block, team = Some Blue, health = None\<rparr>,
          \<lparr>state = Block, team = Some Blue, health = None\<rparr>]]
        [\<lparr>n_id = (0, 0, 0, 1, 0), n_r = 0, n_c = 0, n_team = Blue, n_dir = (0, - 1), n_prev = None\<rparr>,
         \<lparr>n_id = (0, 0, 0, 2, 0), n_r = 0, n_c = 2, n_team = Blue, n_dir = (0, 1), n_prev = None\<rparr>,
         \<lparr>n_id = (0, 0, 0, 3, 0), n_r = 0, n_c = 1, n_team = Blue, n_dir = (0, 1), n_prev = None\<rparr>]
        1)))
   = [((0, 0, 0, 1, 0), 0, 1), ((0, 0, 0, 2, 0), 0, 2), ((0, 0, 0, 3, 0), 0, 1)]"
  by code_simp

section \<open>A producer at the center of a line of five\<close>

text \<open>
  Claim C5 on a 3x5 grid whose middle row is dot, dot, producer, dot, dot of one team, the
  other rows empty, with every draw at 1/2. The five cells spawn into the row below. The
  scan of the working grid marks \<open>(1, 2)\<close> and \<open>(2, 2)\<close> as centers. The producer at
  \<open>(1, 2)\<close> has the empty cell \<open>(0, 2)\<close> above it and is left where it is; the new dot at
  \<open>(2, 2)\<close> has no empty neighbor and bursts.
\<close>

theorem producer_center_not_moved:
  "fst (stepGrid (\<lambda>n. 1 / 2) 0
     [ [emptyCell, emptyCell, emptyCell, emptyCell, emptyCell],
      [\<lparr>state = Dot, team = Some Blue, health = Some 0\<rparr>,
       \<lparr>state = Dot, team = Some Blue, health = Some 0\<rparr>,
       \<lparr>state = Producer, team = Some Blue, health = Some 0\<rparr>,
       \<lparr>state = Dot, team = Some Blue, health = Some 0\<rparr>,
       \<lparr>state = Dot, team = Some Blue, health = Some 0\<rparr>],
      [emptyCell, emptyCell, emptyCell, emptyCell, emptyCell]])
   = \<lparr>grid =
       [ [emptyCell, emptyCell, emptyCell, emptyCell, emptyCell],
        [\<lparr>state = Dot, team = Some Blue, health = Some 0\<rparr>,
         \<lparr>state = Block, team = Some Blue, health = None\<rparr>,
         \<lparr>state = Producer, team = Some Blue, health = Some 0\<rparr>,
         \<lparr>state = Block, team = Some Blue, health = None\<rparr>,
         \<lparr>state = Dot, team = Some Blue, health = Some 0\<rparr>],
        [\<lparr>state = Dot, team = Some Blue, health = Some 0\<rparr>,
         \<lparr>state = Dot, team = Some Blue, health = Some 0\<rparr>,
         emptyCell,
         \<lparr>state = Dot, team = Some Blue, health = Some 0\<rparr>,
         \<lparr>state = Dot, team = Some Blue, health = Some 0\<rparr>]],
      blasts = []\<rparr>"
  by code_simp

section \<open>Preservation of the cell invariants\<close>

lemma shape_setCell: "shape rows cols g \<Longrightarrow> shape rows cols (setCell g r c v)"
  by (simp add: shape_def wfGrid_setCell numRows_setCell numCols_setCell)

lemma shape_range:
  "shape rows cols g \<Longrightarrow> inBounds r c rows cols
   \<Longrightarrow> 0 \<le> r \<and> nat r < length g \<and> 0 \<le> c \<and> nat c < length (g ! nat r)"
  using inBounds_range [of g r c] by (simp add: shape_def)

lemma cellsOk_setCell: "cellsOk g \<Longrightarrow> okCell v \<Longrightarrow> cellsOk (setCell g r c v)"
proof -
  assume ok: "cellsOk g" and v: "okCell v"
  have "list_all okCell row" if "row \<in> set (setCell g r c v)" for row
  proof -
    from that have "row = (g ! nat r)[nat c := v] \<and> nat r < length g \<or> row \<in> set g"
      unfolding setCell_def
      by (cases "nat r < length g") (auto simp: list_update_beyond dest: subsetD [OF set_update_subset_insert])
    then show ?thesis
    proof
      assume a: "row = (g ! nat r)[nat c := v] \<and> nat r < length g"
      then have "list_all okCell (g ! nat r)" using ok by (simp add: cellsOk_def list_all_length)
      then have "\<forall>cell \<in> set ((g ! nat r)[nat c := v]). okCell cell"
        using v by (auto simp: list_all_iff dest: subsetD [OF set_update_subset_insert])
      with a show ?thesis by (simp add: list_all_iff)
    next
      assume "row \<in> set g"
      with ok show ?thesis by (simp add: cellsOk_def list_all_iff)
    qed
  qed
  then show ?thesis by (simp add: cellsOk_def list_all_iff)
qed

lemma cellsOk_cellAt:
  "cellsOk g \<Longrightarrow> shape rows cols g \<Longrightarrow> inBounds r c rows cols \<Longrightarrow> okCell (cellAt g r c)"
  using shape_range [of rows cols g r c]
  by (simp add: cellsOk_def list_all_length cellAt_def)

lemma positions_set: "(r, c) \<in> set (positions rows cols) \<longleftrightarrow> inBounds r c rows cols"
proof -
  have "(r, c) \<in> set (positions rows cols) \<longleftrightarrow> r \<in> {0..rows - 1} \<and> c \<in> {0..cols - 1}"
    unfolding positions_def by (simp add: image_iff)
  then show ?thesis by (auto simp: inBounds_def)
qed

subsection \<open>Shape\<close>

lemma shape_applyArm: "shape rows cols nxt \<Longrightarrow> shape rows cols (applyArm g nxt ps)"
  unfolding applyArm_def
  by (induction ps arbitrary: nxt) (auto simp: shape_setCell)

lemma shape_applyHot: "shape rows cols nxt \<Longrightarrow> shape rows cols (applyHot g nxt ps)"
  unfolding applyHot_def
  by (induction ps arbitrary: nxt) (auto simp: shape_setCell)

lemma shape_applyBlast:
  "shape rows cols nxt \<Longrightarrow> shape rows cols (fst (applyBlast rnd k rows' cols' ps nxt))"
  by (induction rnd k rows' cols' ps nxt rule: applyBlast.induct) (auto simp: shape_setCell)

lemma bombPhases_unfold:
  "bombPhases rnd k g =
     (let rows = numRows g; cols = numCols g;
          nxt2 = applyHot g (applyArm g g (toArm g rows cols)) (toHot g rows cols);
          ex = toExplode g rows cols;
          bc = (if ex \<noteq> [] then collectAll rnd k rows cols ex [] else ([], k))
      in (fst (applyBlast rnd (snd bc) rows cols (fst bc) nxt2), fst bc,
          snd (applyBlast rnd (snd bc) rows cols (fst bc) nxt2)))"
  by (simp add: bombPhases_def Let_def split_beta)

lemma shape_bombPhases:
  "shape rows cols g \<Longrightarrow> shape rows cols (fst (bombPhases rnd k g))"
  by (simp add: bombPhases_unfold Let_def shape_applyBlast shape_applyHot shape_applyArm)

lemma shape_resolveIntent: "shape rows cols nxt \<Longrightarrow> shape rows cols (resolveIntent nxt i)"
  by (cases i) (simp add: resolveIntent_def shape_setCell)

lemma shape_resolveIntents: "shape rows cols nxt \<Longrightarrow> shape rows cols (foldl resolveIntent nxt is)"
  by (induction "is" arbitrary: nxt) (simp_all add: shape_resolveIntent)

lemma shape_burstCorners:
  "shape rows cols nxt \<Longrightarrow> shape rows cols (burstCorners nxt rows' cols' r c tm ds)"
  by (induction ds arbitrary: nxt) (auto simp: shape_setCell Let_def)

lemma shape_resolveCenter:
  "shape rows cols nxt \<Longrightarrow> shape rows cols (fst (resolveCenter rnd k rows' cols' nxt p))"
  by (cases p) (simp add: resolveCenter_def Let_def split_beta shape_setCell shape_burstCorners)

lemma shape_resolveCenters:
  "shape rows cols nxt \<Longrightarrow> shape rows cols (fst (resolveCenters rnd k rows' cols' ps nxt))"
  by (induction ps arbitrary: k nxt) (simp_all add: split_beta shape_resolveCenter)

lemma stepGrid_unfold:
  "stepGrid rnd k g =
     (let rows = numRows g; cols = numCols g;
          bp = bombPhases rnd k g;
          sc = replicationScan rnd (snd (snd bp)) g;
          si = shuffled rnd (snd sc) (fst sc);
          nxt4 = foldl resolveIntent (fst bp) (fst si);
          shc = shuffled rnd (snd si) (findCenters nxt4 rows cols);
          rc = resolveCenters rnd (snd shc) rows cols (fst shc) nxt4
      in (\<lparr>grid = fst rc, blasts = fst (snd bp)\<rparr>, snd rc))"
  by (simp add: stepGrid_def Let_def split_beta)

lemma shape_stepGrid:
  "shape rows cols g \<Longrightarrow> shape rows cols (grid (fst (stepGrid rnd k g)))"
  by (simp add: stepGrid_unfold Let_def shape_resolveCenters shape_resolveIntents shape_bombPhases)

subsection \<open>Shuffling permutes\<close>

lemma shuffleFrom_mset:
  "unitRnd rnd \<Longrightarrow> i < length arr \<Longrightarrow> mset (fst (shuffleFrom rnd k i arr)) = mset arr"
proof (induction i arbitrary: k arr)
  case 0
  then show ?case by simp
next
  case (Suc i)
  define j where "j = nat \<lfloor>rnd k * real (Suc i + 1)\<rfloor>"
  have u: "0 \<le> rnd k" "rnd k < 1" using Suc.prems(1) by (simp_all add: unitRnd_def)
  have "rnd k * real (Suc i + 1) < real (Suc i + 1)"
    using u by (simp add: mult_less_cancel_right2)
  then have "\<lfloor>rnd k * real (Suc i + 1)\<rfloor> < int (Suc i + 1)"
    by (simp add: floor_less_iff)
  then have j: "j < length arr"
    using Suc.prems(2) by (simp add: j_def)
  have sw: "mset (arr[Suc i := arr ! j, j := arr ! Suc i]) = mset arr"
    using mset_swap [of j arr "Suc i"] j Suc.prems(2) by simp
  have "mset (fst (shuffleFrom rnd (Suc k) i (arr[Suc i := arr ! j, j := arr ! Suc i])))
      = mset (arr[Suc i := arr ! j, j := arr ! Suc i])"
    using Suc.prems by (intro Suc.IH) simp_all
  with sw show ?case by (simp add: Let_def j_def)
qed

lemma shuffled_mset: "unitRnd rnd \<Longrightarrow> mset (fst (shuffled rnd k xs)) = mset xs"
  by (cases "xs = []") (simp_all add: shuffled_def shuffleFrom_mset)

lemma shuffled_set: "unitRnd rnd \<Longrightarrow> set (fst (shuffled rnd k xs)) = set xs"
  by (rule mset_eq_setD) (rule shuffled_mset)

lemma shuffled_hd:
  assumes "unitRnd rnd" and "xs \<noteq> []"
  shows "hd (fst (shuffled rnd k xs)) \<in> set xs"
proof -
  have "set (fst (shuffled rnd k xs)) = set xs" using assms(1) by (rule shuffled_set)
  moreover from this assms(2) have "fst (shuffled rnd k xs) \<noteq> []" by auto
  ultimately show ?thesis using hd_in_set by blast
qed

subsection \<open>Cell invariants through the bomb phases\<close>

lemma okCell_emptyCell: "okCell emptyCell"
  by (simp add: okCell_def emptyCell_def healthOr0_def MAX_HEALTH_def)

lemma okCell_fresh: "tm \<noteq> None \<Longrightarrow> st \<noteq> Empty \<Longrightarrow> okCell \<lparr>state = st, team = tm, health = None\<rparr>"
  by (simp add: okCell_def healthOr0_def MAX_HEALTH_def)

lemma okCell_fresh0: "tm \<noteq> None \<Longrightarrow> st \<noteq> Empty \<Longrightarrow> okCell \<lparr>state = st, team = tm, health = Some 0\<rparr>"
  by (simp add: okCell_def healthOr0_def MAX_HEALTH_def)

lemma okCell_team: "okCell cell \<Longrightarrow> state cell \<noteq> Empty \<Longrightarrow> team cell \<noteq> None"
  by (simp add: okCell_def)

lemma cellsOk_applyArm:
  assumes "cellsOk g" and "shape rows cols g"
  shows "cellsOk nxt \<Longrightarrow> \<forall>(r, c) \<in> set ps. inBounds r c rows cols \<and> isDotLike (cellAt g r c)
     \<Longrightarrow> cellsOk (applyArm g nxt ps)"
proof (induction ps arbitrary: nxt)
  case Nil
  then show ?case by (simp add: applyArm_def)
next
  case (Cons p ps)
  obtain r c where p: "p = (r, c)" by (cases p)
  from Cons.prems(2) p have inb: "inBounds r c rows cols" and dl: "isDotLike (cellAt g r c)" by simp_all
  have "okCell (cellAt g r c)" using assms inb by (rule cellsOk_cellAt)
  with dl have "team (cellAt g r c) \<noteq> None" by (auto simp: isDotLike_def dest: okCell_team)
  then have "okCell \<lparr>state = BombArmed, team = team (cellAt g r c), health = None\<rparr>"
    by (simp add: okCell_fresh)
  with Cons.prems(1) have "cellsOk (setCell nxt r c \<lparr>state = BombArmed, team = team (cellAt g r c), health = None\<rparr>)"
    by (rule cellsOk_setCell)
  from Cons.IH [OF this] Cons.prems(2) show ?case by (simp add: applyArm_def p)
qed

lemma cellsOk_applyHot:
  assumes "cellsOk g" and "shape rows cols g"
  shows "cellsOk nxt \<Longrightarrow> \<forall>(r, c) \<in> set ps. inBounds r c rows cols \<and> state (cellAt g r c) = BombArmed
     \<Longrightarrow> cellsOk (applyHot g nxt ps)"
proof (induction ps arbitrary: nxt)
  case Nil
  then show ?case by (simp add: applyHot_def)
next
  case (Cons p ps)
  obtain r c where p: "p = (r, c)" by (cases p)
  from Cons.prems(2) p have inb: "inBounds r c rows cols" and dl: "state (cellAt g r c) = BombArmed" by simp_all
  have "okCell (cellAt g r c)" using assms inb by (rule cellsOk_cellAt)
  with dl have "team (cellAt g r c) \<noteq> None" by (auto dest: okCell_team)
  then have "okCell \<lparr>state = BombHot, team = team (cellAt g r c), health = None\<rparr>"
    by (simp add: okCell_fresh)
  with Cons.prems(1) have "cellsOk (setCell nxt r c \<lparr>state = BombHot, team = team (cellAt g r c), health = None\<rparr>)"
    by (rule cellsOk_setCell)
  from Cons.IH [OF this] Cons.prems(2) show ?case by (simp add: applyHot_def p)
qed

lemma cellsOk_applyBlast:
  "cellsOk nxt \<Longrightarrow> cellsOk (fst (applyBlast rnd k rows cols ps nxt))"
  by (induction rnd k rows cols ps nxt rule: applyBlast.induct)
     (auto simp: cellsOk_setCell okCell_emptyCell)

lemma cellsOk_bombPhases:
  assumes "cellsOk g" and "shape rows cols g"
  shows "cellsOk (fst (bombPhases rnd k g))"
proof -
  have rc: "numRows g = rows" "numCols g = cols" using assms(2) by (simp_all add: shape_def)
  have "cellsOk (applyArm g g (toArm g rows cols))"
    using assms by (intro cellsOk_applyArm [OF assms]) (auto simp: toArm_def positions_set)
  then have "cellsOk (applyHot g (applyArm g g (toArm g rows cols)) (toHot g rows cols))"
    by (intro cellsOk_applyHot [OF assms]) (auto simp: toHot_def positions_set)
  then show ?thesis
    by (simp add: bombPhases_unfold Let_def rc cellsOk_applyBlast)
qed

subsection \<open>The intents of the replication scan\<close>

lemma tryDirs_Some:
  "tryDirs g rows cols r c tm dirs = Some (r', c', tm')
   \<Longrightarrow> tm' = tm \<and> inBounds r' c' rows cols
       \<and> (state (cellAt g r' c') = Empty \<or> isDotLike (cellAt g r' c'))"
  by (induction dirs) (auto simp: Let_def isDotLike_def split: if_splits)

lemma scanCells_intents:
  "set ps \<subseteq> set (positions rows cols) \<Longrightarrow> list_all (intentFrom g rows cols) intents
   \<Longrightarrow> list_all (intentFrom g rows cols) (fst (scanCells rnd k g rows cols ps intents))"
proof (induction ps arbitrary: k intents)
  case Nil
  then show ?case by simp
next
  case (Cons p ps)
  obtain r c where p: "p = (r, c)" by (cases p)
  from Cons.prems(1) have sub: "set ps \<subseteq> set (positions rows cols)"
    and here: "(r, c) \<in> set (positions rows cols)" by (simp_all add: p)
  show ?case
  proof (cases "isDotLike (cellAt g r c)")
    case False
    then show ?thesis using Cons.IH [OF sub Cons.prems(2)] by (simp add: p)
  next
    case True
    let ?sh = "shuffled rnd k CARDINALS"
    show ?thesis
    proof (cases "tryDirs g rows cols r c (team (cellAt g r c)) (fst ?sh)")
      case None
      then show ?thesis using True Cons.IH [OF sub Cons.prems(2)] by (simp add: p split_beta)
    next
      case (Some i)
      obtain r' c' tm' where i: "i = (r', c', tm')" by (cases i)
      from tryDirs_Some [OF Some [unfolded i]] True here
      have "intentFrom g rows cols i"
        unfolding intentFrom_def i by (auto simp: list_ex_iff)
      with Cons.prems(2) have "list_all (intentFrom g rows cols) (intents @ [i])" by simp
      from Cons.IH [OF sub this] show ?thesis using True Some by (simp add: p split_beta)
    qed
  qed
qed

lemma replicationScan_intents:
  "list_all (intentFrom g (numRows g) (numCols g)) (fst (replicationScan rnd k g))"
  unfolding replicationScan_def by (rule scanCells_intents) simp_all

lemma intentFrom_team:
  assumes "cellsOk g" and "shape rows cols g" and "intentFrom g rows cols (r, c, tm)"
  shows "tm \<noteq> None"
proof -
  from assms(3) obtain r0 c0 where "inBounds r0 c0 rows cols" "isDotLike (cellAt g r0 c0)"
    "team (cellAt g r0 c0) = tm"
    by (auto simp: intentFrom_def list_ex_iff positions_set)
  moreover from this have "okCell (cellAt g r0 c0)" using assms(1,2) by (intro cellsOk_cellAt)
  ultimately show ?thesis by (auto simp: isDotLike_def dest: okCell_team)
qed

subsection \<open>Cell invariants through intent resolution\<close>

lemma cellsOk_resolveIntent:
  assumes ok: "cellsOk nxt" and sh: "shape rows cols nxt"
    and inb: "inBounds r c rows cols" and tm: "tm \<noteq> None"
  shows "cellsOk (resolveIntent nxt (r, c, tm))"
proof -
  have okc: "okCell (cellAt nxt r c)" using ok sh inb by (rule cellsOk_cellAt)
  have fresh: "okCell \<lparr>state = Dot, team = tm, health = Some 0\<rparr>" using tm by (simp add: okCell_fresh0)
  have hit: "okCell ((cellAt nxt r c)\<lparr>health := Some (max 0 (healthOr0 (cellAt nxt r c) - 1))\<rparr>)"
    using okc by (simp add: okCell_def healthOr0_def MAX_HEALTH_def)
  have hit': "okCell ((cellAt nxt r c)\<lparr>health := Some (healthOr0 (cellAt nxt r c) - 1)\<rparr>)"
    if "0 < healthOr0 (cellAt nxt r c)"
    using okc that by (simp add: okCell_def healthOr0_def MAX_HEALTH_def)
  show ?thesis
    unfolding resolveIntent_def prod.case
    by (simp add: cellsOk_setCell ok fresh hit hit')
qed

lemma cellsOk_resolveIntents:
  assumes "\<forall>(r, c, tm) \<in> set is. inBounds r c rows cols \<and> tm \<noteq> None"
  shows "cellsOk nxt \<Longrightarrow> shape rows cols nxt \<Longrightarrow> cellsOk (foldl resolveIntent nxt is)"
  using assms
proof (induction "is" arbitrary: nxt)
  case Nil
  then show ?case by simp
next
  case (Cons i "is")
  obtain r c tm where i: "i = (r, c, tm)" by (cases i)
  from Cons.prems(3) have "inBounds r c rows cols" "tm \<noteq> None" by (simp_all add: i)
  from cellsOk_resolveIntent [OF Cons.prems(1,2) this]
  have "cellsOk (resolveIntent nxt i)" by (simp add: i)
  moreover have "shape rows cols (resolveIntent nxt i)" using Cons.prems(2) by (rule shape_resolveIntent)
  ultimately show ?case using Cons.IH Cons.prems(3) by simp
qed

subsection \<open>Centers\<close>

lemma addCenter_set: "set (foldl addCenter cs ps) = set cs \<union> set ps"
  by (induction ps arbitrary: cs) (auto simp: addCenter_def)

lemma findCenters_inBounds:
  "(r, c) \<in> set (findCenters nxt rows cols) \<Longrightarrow> inBounds r c rows cols"
  by (auto simp: findCenters_def addCenter_set horizontalHits_def verticalHits_def inBounds_def)

lemma openNeighbors_set:
  "(nr, nc) \<in> set (openNeighbors nxt rows cols r c)
   \<Longrightarrow> inBounds nr nc rows cols \<and> state (cellAt nxt nr nc) = Empty"
  by (auto simp: openNeighbors_def)

lemma cellsOk_burstCorners:
  "tm \<noteq> None \<Longrightarrow> cellsOk nxt \<Longrightarrow> cellsOk (burstCorners nxt rows cols r c tm ds)"
  by (induction ds arbitrary: nxt) (auto simp: Let_def cellsOk_setCell okCell_fresh)

lemma cellsOk_resolveCenter:
  assumes ok: "cellsOk nxt" and sh: "shape rows cols nxt" and inb: "inBounds r c rows cols"
  shows "cellsOk (fst (resolveCenter rnd k rows cols nxt (r, c)))"
proof (cases "state (cellAt nxt r c) = Dot")
  case False
  then show ?thesis by (simp add: resolveCenter_def ok)
next
  case True
  have okc: "okCell (cellAt nxt r c)" using ok sh inb by (rule cellsOk_cellAt)
  with True have tm: "team (cellAt nxt r c) \<noteq> None" by (auto dest: okCell_team)
  have moved: "okCell \<lparr>state = Dot, team = team (cellAt nxt r c), health = health (cellAt nxt r c)\<rparr>"
    using okc tm by (simp add: okCell_def healthOr0_def)
  show ?thesis
    using True
    by (simp add: resolveCenter_def Let_def split_beta cellsOk_setCell cellsOk_burstCorners
        ok tm moved okCell_emptyCell)
qed

lemma cellsOk_resolveCenters:
  "\<forall>(r, c) \<in> set ps. inBounds r c rows cols \<Longrightarrow> cellsOk nxt \<Longrightarrow> shape rows cols nxt
   \<Longrightarrow> cellsOk (fst (resolveCenters rnd k rows cols ps nxt))"
proof (induction ps arbitrary: k nxt)
  case Nil
  then show ?case by simp
next
  case (Cons p ps)
  obtain r c where p: "p = (r, c)" by (cases p)
  from Cons.prems(1) have inb: "inBounds r c rows cols" by (simp add: p)
  have "cellsOk (fst (resolveCenter rnd k rows cols nxt p))"
    unfolding p using Cons.prems(2,3) inb by (rule cellsOk_resolveCenter)
  moreover have "shape rows cols (fst (resolveCenter rnd k rows cols nxt p))"
    using Cons.prems(3) by (rule shape_resolveCenter)
  ultimately show ?case using Cons.IH Cons.prems(1) by (simp add: split_beta)
qed

lemma cellsOk_stepGrid:
  assumes ok: "cellsOk g" and sh: "shape rows cols g" and u: "unitRnd rnd"
  shows "cellsOk (grid (fst (stepGrid rnd k g)))"
proof -
  have rc: "numRows g = rows" "numCols g = cols" using sh by (simp_all add: shape_def)
  define bp where "bp = bombPhases rnd k g"
  define sc where "sc = replicationScan rnd (snd (snd bp)) g"
  define si where "si = shuffled rnd (snd sc) (fst sc)"
  define nxt4 where "nxt4 = foldl resolveIntent (fst bp) (fst si)"
  define shc where "shc = shuffled rnd (snd si) (findCenters nxt4 rows cols)"
  have ok3: "cellsOk (fst bp)" and sh3: "shape rows cols (fst bp)"
    unfolding bp_def using ok sh by (rule cellsOk_bombPhases, intro shape_bombPhases)
  have "list_all (intentFrom g rows cols) (fst sc)"
    unfolding sc_def using replicationScan_intents [of g rnd] by (simp add: rc)
  then have from_g: "\<forall>i \<in> set (fst si). intentFrom g rows cols i"
    unfolding si_def by (simp add: shuffled_set [OF u] list_all_iff)
  have good: "\<forall>(r, c, tm) \<in> set (fst si). inBounds r c rows cols \<and> tm \<noteq> None"
  proof (clarify, rule conjI)
    fix r c tm assume "(r, c, tm) \<in> set (fst si)"
    with from_g have i: "intentFrom g rows cols (r, c, tm)" by blast
    then show "inBounds r c rows cols" by (simp add: intentFrom_def)
    from intentFrom_team [OF ok sh i] show "tm \<noteq> None" .
  qed
  have ok4: "cellsOk nxt4" unfolding nxt4_def using good ok3 sh3 by (rule cellsOk_resolveIntents)
  have sh4: "shape rows cols nxt4" unfolding nxt4_def using sh3 by (rule shape_resolveIntents)
  have cen: "\<forall>(r, c) \<in> set (fst shc). inBounds r c rows cols"
    unfolding shc_def by (auto simp: shuffled_set [OF u] dest: findCenters_inBounds)
  have "cellsOk (fst (resolveCenters rnd (snd shc) rows cols (fst shc) nxt4))"
    using cen ok4 sh4 by (rule cellsOk_resolveCenters)
  then show ?thesis
    by (simp add: stepGrid_unfold Let_def rc bp_def sc_def si_def nxt4_def shc_def)
qed

subsection \<open>Cell invariants through the nutrient flow\<close>

lemma handleDeadEnd_inv:
  assumes ok: "cellsOk nxt" and sh: "shape rows cols nxt"
  shows "cellsOk (handleDeadEnd nxt rows cols n) \<and> shape rows cols (handleDeadEnd nxt rows cols n)"
proof (cases "friendlyDots nxt rows cols (n_r n) (n_c n) (n_team n)")
  case Nil
  then show ?thesis using ok sh by (simp add: handleDeadEnd_def)
next
  case (Cons p rest)
  obtain fr fc where p: "p = (fr, fc)" by (cases p)
  from friendlyDots_hd [OF Cons [unfolded p]]
  have inb: "inBounds fr fc rows cols" and tm: "team (cellAt nxt fr fc) = Some (n_team n)"
    and dl: "isDotLike (cellAt nxt fr fc)" by simp_all
  have wf: "wfGrid nxt" and inb': "inBounds fr fc (numRows nxt) (numCols nxt)"
    using sh inb by (simp_all add: shape_def)
  have okc: "okCell (cellAt nxt fr fc)" using ok sh inb by (rule cellsOk_cellAt)
  have "okCell \<lparr>state = (if hasEnemyNeighbor nxt fr fc (Some (n_team n))
                          then state (cellAt nxt fr fc) else Producer),
                 team = Some (n_team n),
                 health = Some (min 3 (healthOr0 (cellAt nxt fr fc) + 1))\<rparr>"
    using okc dl by (auto simp: okCell_def healthOr0_def MAX_HEALTH_def isDotLike_def)
  then show ?thesis
    using ok sh by (simp add: handleDeadEnd_def Cons p feedDot_result [OF wf inb' tm dl]
        cellsOk_setCell shape_setCell)
qed

lemma moveNutrient_grid:
  "fst (moveNutrient rnd rows cols st n) = fst st
   \<or> fst (moveNutrient rnd rows cols st n) = handleDeadEnd (fst st) rows cols n"
  by (cases st) (simp add: moveNutrient_def Let_def split_beta)

lemma moveNutrient_inv:
  assumes "cellsOk (fst st)" and "shape rows cols (fst st)"
  shows "cellsOk (fst (moveNutrient rnd rows cols st n))
       \<and> shape rows cols (fst (moveNutrient rnd rows cols st n))"
  using moveNutrient_grid [of rnd rows cols st n] handleDeadEnd_inv [OF assms, of n] assms
  by auto

lemma moveNutrients_inv:
  "cellsOk (fst st) \<Longrightarrow> shape rows cols (fst st)
   \<Longrightarrow> cellsOk (fst (foldl (moveNutrient rnd rows cols) st ns))
       \<and> shape rows cols (fst (foldl (moveNutrient rnd rows cols) st ns))"
proof (induction ns arbitrary: st)
  case Nil
  then show ?case by simp
next
  case (Cons n ns)
  from moveNutrient_inv [OF Cons.prems, of rnd n] Cons.IH show ?case by simp
qed

lemma runNutrients_grid:
  "ngrid (fst (runNutrients rnd clock k g ns tick))
     = fst (foldl (moveNutrient rnd (numRows g) (numCols g)) (g, [], Map.empty, k) ns)"
  by (simp add: runNutrients_def Let_def split_beta)

lemma runNutrients_inv:
  assumes "cellsOk g" and "shape rows cols g"
  shows "cellsOk (ngrid (fst (runNutrients rnd clock k g ns tick)))
       \<and> shape rows cols (ngrid (fst (runNutrients rnd clock k g ns tick)))"
proof -
  have rc: "numRows g = rows" "numCols g = cols" using assms(2) by (simp_all add: shape_def)
  show ?thesis
    unfolding runNutrients_grid rc
    by (rule moveNutrients_inv) (simp_all add: assms)
qed

subsection \<open>Seeding and reset\<close>

lemma createEmptyGrid_inv:
  "0 < rows \<Longrightarrow> cellsOk (createEmptyGrid rows cols) \<and> shape (int rows) (int cols) (createEmptyGrid rows cols)"
  by (cases rows)
     (simp_all add: createEmptyGrid_def cellsOk_def shape_def wfGrid_def numRows_def numCols_def
        list_all_iff okCell_emptyCell)

lemma placeDot_inv:
  assumes "cellsOk g" and "shape rows cols g" and "placeDot tm r c g = Some g'"
  shows "cellsOk g' \<and> shape rows cols g'"
  using assms
  by (auto simp: placeDot_def cellsOk_setCell shape_setCell okCell_fresh0 split: if_splits)

lemma handleDrop_inv:
  assumes "cellsOk g" and "shape rows cols g" and "handleDrop p tm r c g = Some g'"
  shows "cellsOk g' \<and> shape rows cols g'"
proof (cases p)
  case True
  then show ?thesis
    using assms
    by (auto simp: handleDrop_def cellsOk_setCell shape_setCell okCell_fresh0 split: if_splits)
next
  case False
  then show ?thesis using assms placeDot_inv [of g rows cols tm r c g'] by (simp add: handleDrop_def)
qed

lemma reachable_inv:
  "reachable g \<Longrightarrow> cellsOk g \<and> shape (int ROWS) (int COLS) g"
proof (induction rule: reachable.induct)
  case reach_init
  show ?case by (rule createEmptyGrid_inv) (simp add: ROWS_def)
next
  case (reach_step g rnd k)
  then show ?case using cellsOk_stepGrid shape_stepGrid by blast
next
  case (reach_flow g rnd clock k ns tick)
  then show ?case using runNutrients_inv by blast
next
  case (reach_click g tm r c g')
  then show ?case using placeDot_inv by blast
next
  case (reach_drop g isProducer tm r c g')
  then show ?case using handleDrop_inv by blast
next
  case (reach_reset g)
  show ?case unfolding resetGrid_def by (rule createEmptyGrid_inv) (simp add: ROWS_def)
qed

text \<open>
  Claim C9. Every grid the application can hold (the initial grid, and any grid obtained
  from one by a rule step, a nutrient step, a seeding click or drop, or a reset, with the
  draws in \<open>[0, 1)\<close>) has, at every position inside it: no team on an empty cell, a team on
  a block cell, and a health between 0 and 3, an absent health counting as 0.
\<close>

theorem cell_invariants_reachable:
  assumes "reachable g" and "inBounds r c (numRows g) (numCols g)"
  shows "(state (cellAt g r c) = Empty \<longrightarrow> team (cellAt g r c) = None)
       \<and> (state (cellAt g r c) = Block \<longrightarrow> team (cellAt g r c) \<noteq> None)
       \<and> 0 \<le> healthOr0 (cellAt g r c) \<and> healthOr0 (cellAt g r c) \<le> 3"
proof -
  from reachable_inv [OF assms(1)]
  have ok: "cellsOk g" and sh: "shape (int ROWS) (int COLS) g" by simp_all
  from sh assms(2) have "inBounds r c (int ROWS) (int COLS)" by (simp add: shape_def)
  with ok sh have "okCell (cellAt g r c)" by (rule cellsOk_cellAt)
  then show ?thesis by (auto simp: okCell_def MAX_HEALTH_def)
qed

theorem cell_invariants_reachable_witness:
  "reachable (createEmptyGrid ROWS COLS)
   \<and> inBounds 3 4 (numRows (createEmptyGrid ROWS COLS)) (numCols (createEmptyGrid ROWS COLS))
   \<and> state (cellAt (createEmptyGrid ROWS COLS) 3 4) = Empty
   \<and> team (cellAt (createEmptyGrid ROWS COLS) 3 4) = None
   \<and> healthOr0 (cellAt (createEmptyGrid ROWS COLS) 3 4) = 0"
  using cell_invariants_reachable [OF reach_init, of 3 4] reach_init
  by (simp add: createEmptyGrid_def ROWS_def COLS_def inBounds_def numRows_def numCols_def
      cellAt_def emptyCell_def healthOr0_def)

section \<open>The bomb track\<close>

lemma cellAt_setCell:
  assumes "shape rows cols g" and "inBounds r' c' rows cols" and "inBounds r c rows cols"
  shows "cellAt (setCell g r' c' v) r c = (if (r', c') = (r, c) then v else cellAt g r c)"
proof (cases "(r', c') = (r, c)")
  case True
  then show ?thesis using shape_range [OF assms(1,3)] by (simp add: cellAt_setCell_same)
next
  case False
  have "cellAt (setCell g r' c' v) r c = cellAt g r c"
    using assms(2,3) False by (intro cellAt_setCell_other) (auto simp: inBounds_def)
  with False show ?thesis by auto
qed

lemma applyArm_cell:
  "shape rows cols nxt \<Longrightarrow> \<forall>(pr, pc) \<in> set ps. inBounds pr pc rows cols \<Longrightarrow> inBounds r c rows cols
   \<Longrightarrow> cellAt (applyArm g nxt ps) r c =
       (if (r, c) \<in> set ps then \<lparr>state = BombArmed, team = team (cellAt g r c), health = None\<rparr>
        else cellAt nxt r c)"
proof (induction ps arbitrary: nxt)
  case Nil
  then show ?case by (simp add: applyArm_def)
next
  case (Cons p ps)
  obtain pr pc where p: "p = (pr, pc)" by (cases p)
  let ?n = "setCell nxt pr pc \<lparr>state = BombArmed, team = team (cellAt g pr pc), health = None\<rparr>"
  have inb: "inBounds pr pc rows cols" using Cons.prems(2) by (simp add: p)
  have "shape rows cols ?n" using Cons.prems(1) by (rule shape_setCell)
  from Cons.IH [OF this] Cons.prems(2,3)
  have "cellAt (applyArm g ?n ps) r c =
       (if (r, c) \<in> set ps then \<lparr>state = BombArmed, team = team (cellAt g r c), health = None\<rparr>
        else cellAt ?n r c)" by simp
  moreover have "applyArm g nxt (p # ps) = applyArm g ?n ps" by (simp add: applyArm_def p)
  ultimately show ?case
    using cellAt_setCell [OF Cons.prems(1) inb Cons.prems(3)] by (auto simp: p)
qed

lemma applyHot_cell:
  "shape rows cols nxt \<Longrightarrow> \<forall>(pr, pc) \<in> set ps. inBounds pr pc rows cols \<Longrightarrow> inBounds r c rows cols
   \<Longrightarrow> cellAt (applyHot g nxt ps) r c =
       (if (r, c) \<in> set ps then \<lparr>state = BombHot, team = team (cellAt g r c), health = None\<rparr>
        else cellAt nxt r c)"
proof (induction ps arbitrary: nxt)
  case Nil
  then show ?case by (simp add: applyHot_def)
next
  case (Cons p ps)
  obtain pr pc where p: "p = (pr, pc)" by (cases p)
  let ?n = "setCell nxt pr pc \<lparr>state = BombHot, team = team (cellAt g pr pc), health = None\<rparr>"
  have inb: "inBounds pr pc rows cols" using Cons.prems(2) by (simp add: p)
  have "shape rows cols ?n" using Cons.prems(1) by (rule shape_setCell)
  from Cons.IH [OF this] Cons.prems(2,3)
  have "cellAt (applyHot g ?n ps) r c =
       (if (r, c) \<in> set ps then \<lparr>state = BombHot, team = team (cellAt g r c), health = None\<rparr>
        else cellAt ?n r c)" by simp
  moreover have "applyHot g nxt (p # ps) = applyHot g ?n ps" by (simp add: applyHot_def p)
  ultimately show ?case
    using cellAt_setCell [OF Cons.prems(1) inb Cons.prems(3)] by (auto simp: p)
qed

lemma applyBlast_empty_stays:
  "shape rows cols nxt \<Longrightarrow> inBounds r c rows cols \<Longrightarrow> cellAt nxt r c = emptyCell
   \<Longrightarrow> cellAt (fst (applyBlast rnd k rows cols ps nxt)) r c = emptyCell"
proof (induction ps arbitrary: k nxt)
  case Nil
  then show ?case by simp
next
  case (Cons p ps)
  obtain br bc where p: "p = (br, bc)" by (cases p)
  show ?case
  proof (cases "inBounds br bc rows cols")
    case False
    then show ?thesis using Cons by (simp add: p)
  next
    case True
    have "cellAt (setCell nxt br bc emptyCell) r c = emptyCell"
      using cellAt_setCell [OF Cons.prems(1) True Cons.prems(2)] Cons.prems(3) by simp
    moreover have "shape rows cols (setCell nxt br bc emptyCell)"
      using Cons.prems(1) by (rule shape_setCell)
    ultimately show ?thesis
      using True Cons.IH Cons.prems by (simp add: p)
  qed
qed

lemma applyBlast_other:
  "shape rows cols nxt \<Longrightarrow> inBounds r c rows cols \<Longrightarrow> (r, c) \<notin> set ps
   \<Longrightarrow> cellAt (fst (applyBlast rnd k rows cols ps nxt)) r c = cellAt nxt r c"
proof (induction ps arbitrary: k nxt)
  case Nil
  then show ?case by simp
next
  case (Cons p ps)
  obtain br bc where p: "p = (br, bc)" by (cases p)
  show ?case
  proof (cases "inBounds br bc rows cols")
    case False
    then show ?thesis using Cons by (simp add: p)
  next
    case True
    have "cellAt (setCell nxt br bc emptyCell) r c = cellAt nxt r c"
      using cellAt_setCell [OF Cons.prems(1) True Cons.prems(2)] Cons.prems(3) by (auto simp: p)
    moreover have "shape rows cols (setCell nxt br bc emptyCell)"
      using Cons.prems(1) by (rule shape_setCell)
    ultimately show ?thesis
      using True Cons.IH [of _ k] Cons.IH [of _ "Suc k"] Cons.prems by (simp add: p)
  qed
qed

lemma applyBlast_bomb:
  "shape rows cols nxt \<Longrightarrow> inBounds r c rows cols \<Longrightarrow> (r, c) \<in> set ps
   \<Longrightarrow> state (cellAt nxt r c) = BombArmed \<or> state (cellAt nxt r c) = BombHot
   \<Longrightarrow> cellAt (fst (applyBlast rnd k rows cols ps nxt)) r c = emptyCell"
proof (induction ps arbitrary: k nxt)
  case Nil
  then show ?case by simp
next
  case (Cons p ps)
  obtain br bc where p: "p = (br, bc)" by (cases p)
  show ?case
  proof (cases "(br, bc) = (r, c)")
    case True
    have "cellAt (setCell nxt r c emptyCell) r c = emptyCell"
      using cellAt_setCell [OF Cons.prems(1) Cons.prems(2) Cons.prems(2)] by simp
    moreover have "shape rows cols (setCell nxt r c emptyCell)"
      using Cons.prems(1) by (rule shape_setCell)
    ultimately have "cellAt (fst (applyBlast rnd k rows cols ps (setCell nxt r c emptyCell))) r c = emptyCell"
      using Cons.prems(2) by (intro applyBlast_empty_stays)
    then show ?thesis using True Cons.prems(2,4) by (simp add: p)
  next
    case False
    with Cons.prems(3) have mem: "(r, c) \<in> set ps" by (auto simp: p)
    show ?thesis
    proof (cases "inBounds br bc rows cols")
      case out: False
      then show ?thesis using Cons.IH [OF Cons.prems(1,2) mem Cons.prems(4)] by (simp add: p)
    next
      case True
      let ?n = "setCell nxt br bc emptyCell"
      have same: "cellAt ?n r c = cellAt nxt r c"
        using cellAt_setCell [OF Cons.prems(1) True Cons.prems(2)] False by auto
      have sh: "shape rows cols ?n" using Cons.prems(1) by (rule shape_setCell)
      have a: "cellAt (fst (applyBlast rnd k' rows cols ps ?n)) r c = emptyCell" for k'
        using Cons.IH [OF sh Cons.prems(2) mem] Cons.prems(4) same by simp
      have b: "cellAt (fst (applyBlast rnd k' rows cols ps nxt)) r c = emptyCell" for k'
        using Cons.IH [OF Cons.prems(1,2) mem Cons.prems(4)] .
      show ?thesis using True a b by (simp add: p)
    qed
  qed
qed


subsection \<open>Blast lists\<close>

lemma collectBlastCells_square:
  "set (blastSquare r c rows cols) \<subseteq> set (fst (collectBlastCells rnd k r c rows cols))"
  by (simp add: collectBlastCells_def spillLoop_char)

lemma collectAll_acc:
  "set acc \<subseteq> set (fst (collectAll rnd k rows cols ps acc))"
proof (induction ps arbitrary: k acc)
  case Nil
  then show ?case by simp
next
  case (Cons p ps)
  obtain r c where p: "p = (r, c)" by (cases p)
  have "set (acc @ fst (collectBlastCells rnd k r c rows cols))
      \<subseteq> set (fst (collectAll rnd (snd (collectBlastCells rnd k r c rows cols)) rows cols ps
                     (acc @ fst (collectBlastCells rnd k r c rows cols))))"
    by (rule Cons.IH)
  then show ?case by (simp add: p split_beta)
qed

lemma collectAll_square:
  "(r, c) \<in> set ps \<Longrightarrow> set (blastSquare r c rows cols) \<subseteq> set (fst (collectAll rnd k rows cols ps acc))"
proof (induction ps arbitrary: k acc)
  case Nil
  then show ?case by simp
next
  case (Cons p ps)
  obtain pr pc where p: "p = (pr, pc)" by (cases p)
  let ?cb = "collectBlastCells rnd k pr pc rows cols"
  show ?case
  proof (cases "(pr, pc) = (r, c)")
    case True
    have "set (blastSquare r c rows cols) \<subseteq> set (acc @ fst (collectBlastCells rnd k r c rows cols))"
      using collectBlastCells_square [of r c rows cols rnd k] by auto
    also have "\<dots> \<subseteq> set (fst (collectAll rnd (snd (collectBlastCells rnd k r c rows cols)) rows cols ps
                     (acc @ fst (collectBlastCells rnd k r c rows cols))))"
      by (rule collectAll_acc)
    finally show ?thesis using True by (simp add: p split_beta)
  next
    case False
    with Cons.prems have "(r, c) \<in> set ps" by (auto simp: p)
    from Cons.IH [OF this] show ?thesis by (simp add: p split_beta)
  qed
qed

lemma blastSquare_self: "inBounds r c rows cols \<Longrightarrow> (r, c) \<in> set (blastSquare r c rows cols)"
  by (simp add: blastSquare_set)

text \<open>The working grid after the bomb phases, at a cell that was a bomb before the step.\<close>

lemma bombPhases_armed:
  assumes sh: "shape rows cols g" and inb: "inBounds r c rows cols"
    and armed: "state (cellAt g r c) = BombArmed"
  shows "cellAt (fst (bombPhases rnd k g)) r c =
     (if (r, c) \<in> set (fst (snd (bombPhases rnd k g))) then emptyCell
      else \<lparr>state = BombHot, team = team (cellAt g r c), health = None\<rparr>)"
proof -
  have rc: "numRows g = rows" "numCols g = cols" using sh by (simp_all add: shape_def)
  let ?n1 = "applyArm g g (toArm g rows cols)"
  let ?n2 = "applyHot g ?n1 (toHot g rows cols)"
  have sh1: "shape rows cols ?n1" using sh by (rule shape_applyArm)
  have sh2: "shape rows cols ?n2" using sh1 by (rule shape_applyHot)
  have "(r, c) \<in> set (toHot g rows cols)"
    using inb armed by (simp add: toHot_def positions_set)
  then have n2: "cellAt ?n2 r c = \<lparr>state = BombHot, team = team (cellAt g r c), health = None\<rparr>"
    using applyHot_cell [OF sh1 _ inb, of "toHot g rows cols" g]
    by (auto simp: toHot_def positions_set)
  show ?thesis
  proof (cases "(r, c) \<in> set (fst (snd (bombPhases rnd k g)))")
    case True
    then show ?thesis
      using applyBlast_bomb [OF sh2 inb _ disjI2, of _ rnd] n2
      by (simp add: bombPhases_unfold Let_def rc)
  next
    case False
    then show ?thesis
      using applyBlast_other [OF sh2 inb, of _ rnd] n2
      by (simp add: bombPhases_unfold Let_def rc)
  qed
qed

lemma bombPhases_hot:
  assumes sh: "shape rows cols g" and inb: "inBounds r c rows cols"
    and hot: "state (cellAt g r c) = BombHot"
  shows "(r, c) \<in> set (fst (snd (bombPhases rnd k g)))
       \<and> cellAt (fst (bombPhases rnd k g)) r c = emptyCell"
proof -
  have rc: "numRows g = rows" "numCols g = cols" using sh by (simp_all add: shape_def)
  let ?n1 = "applyArm g g (toArm g rows cols)"
  let ?n2 = "applyHot g ?n1 (toHot g rows cols)"
  have sh1: "shape rows cols ?n1" using sh by (rule shape_applyArm)
  have sh2: "shape rows cols ?n2" using sh1 by (rule shape_applyHot)
  have "(r, c) \<notin> set (toArm g rows cols)" using hot by (simp add: toArm_def isDotLike_def)
  then have n1: "cellAt ?n1 r c = cellAt g r c"
    using applyArm_cell [OF sh _ inb, of "toArm g rows cols" g]
    by (auto simp: toArm_def positions_set)
  have "(r, c) \<notin> set (toHot g rows cols)" using hot by (simp add: toHot_def)
  then have n2: "cellAt ?n2 r c = cellAt g r c"
    using applyHot_cell [OF sh1 _ inb, of "toHot g rows cols" g] n1
    by (auto simp: toHot_def positions_set)
  have ex: "(r, c) \<in> set (toExplode g rows cols)"
    using inb hot by (simp add: toExplode_def positions_set)
  then have ne: "toExplode g rows cols \<noteq> []" by auto
  have mem: "(r, c) \<in> set (fst (collectAll rnd k rows cols (toExplode g rows cols) []))"
    using collectAll_square [OF ex, of rows cols rnd k "[]"] blastSquare_self [OF inb] by blast
  have "cellAt (fst (applyBlast rnd k' rows cols
          (fst (collectAll rnd k rows cols (toExplode g rows cols) [])) ?n2)) r c = emptyCell" for k'
    using applyBlast_bomb [OF sh2 inb mem] n2 hot by simp
  with mem ne show ?thesis
    by (simp add: bombPhases_unfold Let_def rc)
qed


subsection \<open>Cells that no intent targets\<close>

lemma resolveIntent_other:
  assumes "shape rows cols nxt" and "inBounds ir ic rows cols" and "inBounds r c rows cols"
    and "(ir, ic) \<noteq> (r, c)"
  shows "cellAt (resolveIntent nxt (ir, ic, tm)) r c = cellAt nxt r c"
  using cellAt_setCell [OF assms(1,2,3)] assms(4)
  by (auto simp: resolveIntent_def)

lemma resolveIntents_other:
  "shape rows cols nxt \<Longrightarrow> inBounds r c rows cols
   \<Longrightarrow> \<forall>(ir, ic, tm) \<in> set is. inBounds ir ic rows cols \<and> (ir, ic) \<noteq> (r, c)
   \<Longrightarrow> cellAt (foldl resolveIntent nxt is) r c = cellAt nxt r c"
proof (induction "is" arbitrary: nxt)
  case Nil
  then show ?case by simp
next
  case (Cons i "is")
  obtain ir ic tm where i: "i = (ir, ic, tm)" by (cases i)
  from Cons.prems(3) have here: "inBounds ir ic rows cols" "(ir, ic) \<noteq> (r, c)" by (simp_all add: i)
  have "cellAt (resolveIntent nxt i) r c = cellAt nxt r c"
    unfolding i using Cons.prems(1) here(1) Cons.prems(2) here(2) by (rule resolveIntent_other)
  moreover have "shape rows cols (resolveIntent nxt i)" using Cons.prems(1) by (rule shape_resolveIntent)
  ultimately show ?case using Cons.IH [of "resolveIntent nxt i"] Cons.prems(2,3) by simp
qed

subsection \<open>What line-of-five resolution can do to a cell\<close>

lemma burstCorners_occupied:
  "shape rows cols nxt \<Longrightarrow> inBounds r c rows cols \<Longrightarrow> state (cellAt nxt r c) \<noteq> Empty
   \<Longrightarrow> cellAt (burstCorners nxt rows cols cr cc tm ds) r c = cellAt nxt r c
       \<or> state (cellAt (burstCorners nxt rows cols cr cc tm ds) r c) = Block"
proof (induction ds arbitrary: nxt)
  case Nil
  then show ?case by simp
next
  case (Cons d ds)
  obtain dr dc where d: "d = (dr, dc)" by (cases d)
  show ?case
  proof (cases "inBounds (cr + dr) (cc + dc) rows cols")
    case False
    then show ?thesis using Cons by (simp add: d)
  next
    case True
    define v where "v = (if state (cellAt nxt (cr + dr) (cc + dc)) = Empty
       then \<lparr>state = Dot, team = tm, health = None\<rparr> else \<lparr>state = Block, team = tm, health = None\<rparr>)"
    have step: "burstCorners nxt rows cols cr cc tm (d # ds)
        = burstCorners (setCell nxt (cr + dr) (cc + dc) v) rows cols cr cc tm ds"
      using True by (simp add: d v_def Let_def)
    have sh: "shape rows cols (setCell nxt (cr + dr) (cc + dc) v)"
      using Cons.prems(1) by (rule shape_setCell)
    have at: "cellAt (setCell nxt (cr + dr) (cc + dc) v) r c
        = (if (cr + dr, cc + dc) = (r, c) then v else cellAt nxt r c)"
      using Cons.prems(1) True Cons.prems(2) by (rule cellAt_setCell)
    show ?thesis
    proof (cases "(cr + dr, cc + dc) = (r, c)")
      case same: True
      with Cons.prems(3) have "v = \<lparr>state = Block, team = tm, health = None\<rparr>" by (auto simp: v_def)
      with at same have "state (cellAt (setCell nxt (cr + dr) (cc + dc) v) r c) = Block"
        and "state (cellAt (setCell nxt (cr + dr) (cc + dc) v) r c) \<noteq> Empty" by simp_all
      with Cons.IH [OF sh Cons.prems(2)] show ?thesis unfolding step by auto
    next
      case False
      with at have "cellAt (setCell nxt (cr + dr) (cc + dc) v) r c = cellAt nxt r c" by auto
      with Cons.IH [OF sh Cons.prems(2)] Cons.prems(3) show ?thesis unfolding step by auto
    qed
  qed
qed

lemma burstCorners_states:
  "shape rows cols nxt \<Longrightarrow> inBounds r c rows cols
   \<Longrightarrow> state (cellAt nxt r c) \<in> {Empty, Dot, Block}
   \<Longrightarrow> state (cellAt (burstCorners nxt rows cols cr cc tm ds) r c) \<in> {Empty, Dot, Block}"
proof (induction ds arbitrary: nxt)
  case Nil
  then show ?case by simp
next
  case (Cons d ds)
  obtain dr dc where d: "d = (dr, dc)" by (cases d)
  show ?case
  proof (cases "inBounds (cr + dr) (cc + dc) rows cols")
    case False
    then show ?thesis using Cons by (simp add: d)
  next
    case True
    define v where "v = (if state (cellAt nxt (cr + dr) (cc + dc)) = Empty
       then \<lparr>state = Dot, team = tm, health = None\<rparr> else \<lparr>state = Block, team = tm, health = None\<rparr>)"
    have step: "burstCorners nxt rows cols cr cc tm (d # ds)
        = burstCorners (setCell nxt (cr + dr) (cc + dc) v) rows cols cr cc tm ds"
      using True by (simp add: d v_def Let_def)
    have sh: "shape rows cols (setCell nxt (cr + dr) (cc + dc) v)"
      using Cons.prems(1) by (rule shape_setCell)
    have "cellAt (setCell nxt (cr + dr) (cc + dc) v) r c
        = (if (cr + dr, cc + dc) = (r, c) then v else cellAt nxt r c)"
      using Cons.prems(1) True Cons.prems(2) by (rule cellAt_setCell)
    then have "state (cellAt (setCell nxt (cr + dr) (cc + dc) v) r c) \<in> {Empty, Dot, Block}"
      using Cons.prems(3) by (auto simp: v_def)
    with Cons.IH [OF sh Cons.prems(2)] show ?thesis unfolding step by blast
  qed
qed

lemma resolveCenter_cases:
  assumes sh: "shape rows cols nxt" and u: "unitRnd rnd" and cen: "inBounds cr cc rows cols"
  shows "(state (cellAt nxt cr cc) \<noteq> Dot \<and> fst (resolveCenter rnd k rows cols nxt (cr, cc)) = nxt)
    \<or> (\<exists>nr nc. state (cellAt nxt cr cc) = Dot \<and> inBounds nr nc rows cols
          \<and> state (cellAt nxt nr nc) = Empty
          \<and> fst (resolveCenter rnd k rows cols nxt (cr, cc)) =
              setCell (setCell nxt nr nc \<lparr>state = Dot, team = team (cellAt nxt cr cc),
                                          health = health (cellAt nxt cr cc)\<rparr>) cr cc emptyCell)
    \<or> (state (cellAt nxt cr cc) = Dot
          \<and> fst (resolveCenter rnd k rows cols nxt (cr, cc)) =
              burstCorners (setCell nxt cr cc emptyCell) rows cols cr cc (team (cellAt nxt cr cc)) DIAGONALS)"
proof (cases "state (cellAt nxt cr cc) = Dot")
  case False
  then show ?thesis by (simp add: resolveCenter_def)
next
  case True
  show ?thesis
  proof (cases "openNeighbors nxt rows cols cr cc = []")
    case True
    with \<open>state (cellAt nxt cr cc) = Dot\<close> show ?thesis
      by (simp add: resolveCenter_def Let_def)
  next
    case False
    obtain nr nc where h: "hd (fst (shuffled rnd k (openNeighbors nxt rows cols cr cc))) = (nr, nc)"
      by (cases "hd (fst (shuffled rnd k (openNeighbors nxt rows cols cr cc)))")
    from shuffled_hd [OF u False, of k] h
    have "(nr, nc) \<in> set (openNeighbors nxt rows cols cr cc)" by simp
    from openNeighbors_set [OF this]
    have "inBounds nr nc rows cols" "state (cellAt nxt nr nc) = Empty" by simp_all
    moreover have "fst (resolveCenter rnd k rows cols nxt (cr, cc)) =
              setCell (setCell nxt nr nc \<lparr>state = Dot, team = team (cellAt nxt cr cc),
                                          health = health (cellAt nxt cr cc)\<rparr>) cr cc emptyCell"
      using True False h by (simp add: resolveCenter_def Let_def split_beta)
    ultimately show ?thesis using True by blast
  qed
qed

lemma resolveCenter_occupied:
  assumes sh: "shape rows cols nxt" and u: "unitRnd rnd" and cen: "inBounds cr cc rows cols"
    and inb: "inBounds r c rows cols"
    and st: "state (cellAt nxt r c) \<noteq> Empty" "state (cellAt nxt r c) \<noteq> Dot"
  shows "cellAt (fst (resolveCenter rnd k rows cols nxt (cr, cc))) r c = cellAt nxt r c
       \<or> state (cellAt (fst (resolveCenter rnd k rows cols nxt (cr, cc))) r c) = Block"
  using resolveCenter_cases [OF sh u cen, of k]
proof (elim disjE exE conjE)
  assume "fst (resolveCenter rnd k rows cols nxt (cr, cc)) = nxt"
  then show ?thesis by simp
next
  fix nr nc
  assume m: "state (cellAt nxt cr cc) = Dot" "inBounds nr nc rows cols"
    "state (cellAt nxt nr nc) = Empty"
    and eq: "fst (resolveCenter rnd k rows cols nxt (cr, cc)) =
              setCell (setCell nxt nr nc \<lparr>state = Dot, team = team (cellAt nxt cr cc),
                                          health = health (cellAt nxt cr cc)\<rparr>) cr cc emptyCell"
  have "(nr, nc) \<noteq> (r, c)" "(cr, cc) \<noteq> (r, c)" using m(1,3) st by auto
  then show ?thesis
    using cellAt_setCell [OF shape_setCell [OF sh] cen inb] cellAt_setCell [OF sh m(2) inb]
    by (auto simp: eq)
next
  assume b: "state (cellAt nxt cr cc) = Dot"
    and eq: "fst (resolveCenter rnd k rows cols nxt (cr, cc)) =
              burstCorners (setCell nxt cr cc emptyCell) rows cols cr cc (team (cellAt nxt cr cc)) DIAGONALS"
  have ne: "(cr, cc) \<noteq> (r, c)" using b st by auto
  have "cellAt (setCell nxt cr cc emptyCell) r c = cellAt nxt r c"
    using cellAt_setCell [OF sh cen inb] ne by auto
  with burstCorners_occupied [OF shape_setCell [OF sh] inb, of cr cc emptyCell cr cc _ DIAGONALS] st(1)
  show ?thesis by (simp add: eq)
qed

lemma resolveCenter_states:
  assumes sh: "shape rows cols nxt" and u: "unitRnd rnd" and cen: "inBounds cr cc rows cols"
    and inb: "inBounds r c rows cols"
    and st: "state (cellAt nxt r c) \<in> {Empty, Dot, Block}"
  shows "state (cellAt (fst (resolveCenter rnd k rows cols nxt (cr, cc))) r c) \<in> {Empty, Dot, Block}"
  using resolveCenter_cases [OF sh u cen, of k]
proof (elim disjE exE conjE)
  assume "fst (resolveCenter rnd k rows cols nxt (cr, cc)) = nxt"
  then show ?thesis using st by simp
next
  fix nr nc
  assume m: "state (cellAt nxt cr cc) = Dot" "inBounds nr nc rows cols"
    "state (cellAt nxt nr nc) = Empty"
    and eq: "fst (resolveCenter rnd k rows cols nxt (cr, cc)) =
              setCell (setCell nxt nr nc \<lparr>state = Dot, team = team (cellAt nxt cr cc),
                                          health = health (cellAt nxt cr cc)\<rparr>) cr cc emptyCell"
  show ?thesis
    using cellAt_setCell [OF shape_setCell [OF sh] cen inb] cellAt_setCell [OF sh m(2) inb] st
    by (auto simp: eq emptyCell_def)
next
  assume b: "state (cellAt nxt cr cc) = Dot"
    and eq: "fst (resolveCenter rnd k rows cols nxt (cr, cc)) =
              burstCorners (setCell nxt cr cc emptyCell) rows cols cr cc (team (cellAt nxt cr cc)) DIAGONALS"
  have "state (cellAt (setCell nxt cr cc emptyCell) r c) \<in> {Empty, Dot, Block}"
    using cellAt_setCell [OF sh cen inb] st by (auto simp: emptyCell_def)
  from burstCorners_states [OF shape_setCell [OF sh] inb this]
  show ?thesis by (simp add: eq)
qed

lemma resolveCenters_occupied:
  "shape rows cols nxt \<Longrightarrow> unitRnd rnd \<Longrightarrow> \<forall>(cr, cc) \<in> set ps. inBounds cr cc rows cols
   \<Longrightarrow> inBounds r c rows cols
   \<Longrightarrow> state (cellAt nxt r c) \<noteq> Empty \<Longrightarrow> state (cellAt nxt r c) \<noteq> Dot
   \<Longrightarrow> cellAt (fst (resolveCenters rnd k rows cols ps nxt)) r c = cellAt nxt r c
       \<or> state (cellAt (fst (resolveCenters rnd k rows cols ps nxt)) r c) = Block"
proof (induction ps arbitrary: k nxt)
  case Nil
  then show ?case by simp
next
  case (Cons p ps)
  obtain cr cc where p: "p = (cr, cc)" by (cases p)
  let ?rc = "resolveCenter rnd k rows cols nxt (cr, cc)"
  have cen: "inBounds cr cc rows cols" and rest: "\<forall>(cr, cc) \<in> set ps. inBounds cr cc rows cols"
    using Cons.prems(3) by (simp_all add: p)
  have sh: "shape rows cols (fst ?rc)" using Cons.prems(1) by (rule shape_resolveCenter)
  from resolveCenter_occupied [OF Cons.prems(1,2) cen Cons.prems(4,5,6), of k]
  have one: "cellAt (fst ?rc) r c = cellAt nxt r c \<or> state (cellAt (fst ?rc) r c) = Block" .
  then have ne: "state (cellAt (fst ?rc) r c) \<noteq> Empty" "state (cellAt (fst ?rc) r c) \<noteq> Dot"
    using Cons.prems(5,6) by auto
  from Cons.IH [OF sh Cons.prems(2) rest Cons.prems(4) ne, of "snd ?rc"] one
  show ?case by (auto simp: p split_beta)
qed

lemma resolveCenters_states:
  "shape rows cols nxt \<Longrightarrow> unitRnd rnd \<Longrightarrow> \<forall>(cr, cc) \<in> set ps. inBounds cr cc rows cols
   \<Longrightarrow> inBounds r c rows cols
   \<Longrightarrow> state (cellAt nxt r c) \<in> {Empty, Dot, Block}
   \<Longrightarrow> state (cellAt (fst (resolveCenters rnd k rows cols ps nxt)) r c) \<in> {Empty, Dot, Block}"
proof (induction ps arbitrary: k nxt)
  case Nil
  then show ?case by simp
next
  case (Cons p ps)
  obtain cr cc where p: "p = (cr, cc)" by (cases p)
  let ?rc = "resolveCenter rnd k rows cols nxt (cr, cc)"
  have cen: "inBounds cr cc rows cols" and rest: "\<forall>(cr, cc) \<in> set ps. inBounds cr cc rows cols"
    using Cons.prems(3) by (simp_all add: p)
  have sh: "shape rows cols (fst ?rc)" using Cons.prems(1) by (rule shape_resolveCenter)
  from resolveCenter_states [OF Cons.prems(1,2) cen Cons.prems(4,5), of k]
  have "state (cellAt (fst ?rc) r c) \<in> {Empty, Dot, Block}" .
  from Cons.IH [OF sh Cons.prems(2) rest Cons.prems(4) this, of "snd ?rc"]
  show ?case by (simp add: p split_beta)
qed


lemma wfGrid_shape: "wfGrid g \<Longrightarrow> shape (numRows g) (numCols g) g"
  by (simp add: shape_def)

lemma stepGrid_bomb_cell:
  assumes wf: "wfGrid g" and u: "unitRnd rnd" and inb: "inBounds r c (numRows g) (numCols g)"
    and bomb: "state (cellAt g r c) = BombArmed \<or> state (cellAt g r c) = BombHot"
  shows "\<exists>ps k' . grid (fst (stepGrid rnd k g))
            = fst (resolveCenters rnd k' (numRows g) (numCols g) ps
                     (foldl resolveIntent (fst (bombPhases rnd k g))
                        (fst (shuffled rnd (snd (replicationScan rnd (snd (snd (bombPhases rnd k g))) g))
                                 (fst (replicationScan rnd (snd (snd (bombPhases rnd k g))) g))))))
          \<and> (\<forall>(cr, cc) \<in> set ps. inBounds cr cc (numRows g) (numCols g))"
    and "cellAt (foldl resolveIntent (fst (bombPhases rnd k g))
                        (fst (shuffled rnd (snd (replicationScan rnd (snd (snd (bombPhases rnd k g))) g))
                                 (fst (replicationScan rnd (snd (snd (bombPhases rnd k g))) g))))) r c
         = cellAt (fst (bombPhases rnd k g)) r c"
proof -
  let ?rows = "numRows g" and ?cols = "numCols g"
  have sh: "shape ?rows ?cols g" using wf by (rule wfGrid_shape)
  define bp where "bp = bombPhases rnd k g"
  define sc where "sc = replicationScan rnd (snd (snd bp)) g"
  define si where "si = shuffled rnd (snd sc) (fst sc)"
  define nxt4 where "nxt4 = foldl resolveIntent (fst bp) (fst si)"
  define shc where "shc = shuffled rnd (snd si) (findCenters nxt4 ?rows ?cols)"
  have sh3: "shape ?rows ?cols (fst bp)" unfolding bp_def using sh by (rule shape_bombPhases)
  have "list_all (intentFrom g ?rows ?cols) (fst sc)"
    unfolding sc_def by (rule replicationScan_intents)
  then have from_g: "\<forall>i \<in> set (fst si). intentFrom g ?rows ?cols i"
    unfolding si_def by (simp add: shuffled_set [OF u] list_all_iff)
  have away: "\<forall>(ir, ic, tm) \<in> set (fst si). inBounds ir ic ?rows ?cols \<and> (ir, ic) \<noteq> (r, c)"
  proof (clarify, rule conjI)
    fix ir ic tm assume "(ir, ic, tm) \<in> set (fst si)"
    with from_g have i: "intentFrom g ?rows ?cols (ir, ic, tm)" by blast
    then show "inBounds ir ic ?rows ?cols" by (simp add: intentFrom_def)
    from i bomb show "(ir, ic) \<noteq> (r, c)" by (auto simp: intentFrom_def isDotLike_def)
  qed
  show "cellAt (foldl resolveIntent (fst (bombPhases rnd k g))
                        (fst (shuffled rnd (snd (replicationScan rnd (snd (snd (bombPhases rnd k g))) g))
                                 (fst (replicationScan rnd (snd (snd (bombPhases rnd k g))) g))))) r c
         = cellAt (fst (bombPhases rnd k g)) r c"
    using resolveIntents_other [OF sh3 inb away] by (simp add: bp_def sc_def si_def)
  have cen: "\<forall>(cr, cc) \<in> set (fst shc). inBounds cr cc ?rows ?cols"
    unfolding shc_def by (auto simp: shuffled_set [OF u] dest: findCenters_inBounds)
  have "grid (fst (stepGrid rnd k g)) = fst (resolveCenters rnd (snd shc) ?rows ?cols (fst shc) nxt4)"
    by (simp add: stepGrid_unfold Let_def bp_def sc_def si_def nxt4_def shc_def)
  with cen show "\<exists>ps k' . grid (fst (stepGrid rnd k g))
            = fst (resolveCenters rnd k' (numRows g) (numCols g) ps
                     (foldl resolveIntent (fst (bombPhases rnd k g))
                        (fst (shuffled rnd (snd (replicationScan rnd (snd (snd (bombPhases rnd k g))) g))
                                 (fst (replicationScan rnd (snd (snd (bombPhases rnd k g))) g))))))
          \<and> (\<forall>(cr, cc) \<in> set ps. inBounds cr cc (numRows g) (numCols g))"
    unfolding nxt4_def si_def sc_def bp_def by blast
qed

lemma stepGrid_blasts: "blasts (fst (stepGrid rnd k g)) = fst (snd (bombPhases rnd k g))"
  by (simp add: stepGrid_unfold Let_def)

text \<open>
  Claim C4, as amended, for a cell inside a well-formed grid and draws in \<open>[0, 1)\<close>.
  A cell that is bomb-armed before a step and lies in no blast footprint of that step is
  bomb-hot, with its team, in the working grid after the bomb phases, and in the output of
  the step it is still that bomb-hot cell unless a burst has overwritten it into a block.
  A cell that is bomb-armed before a step and lies in a blast footprint is cleared by the
  detonation. A cell that is bomb-hot before a step explodes in it: it is in the blast
  list of the step and is cleared by the detonation. A cell cleared in this way is empty
  in the output unless line-of-five resolution has refilled it, as a dot or as a block; it
  is never a bomb or a producer there.
\<close>

theorem bomb_track:
  assumes wf: "wfGrid g" and u: "unitRnd rnd" and inb: "inBounds r c (numRows g) (numCols g)"
  shows "(state (cellAt g r c) = BombArmed \<longrightarrow>
            (if (r, c) \<in> set (blasts (fst (stepGrid rnd k g)))
             then cellAt (fst (bombPhases rnd k g)) r c = emptyCell
                  \<and> state (cellAt (grid (fst (stepGrid rnd k g))) r c) \<in> {Empty, Dot, Block}
             else cellAt (fst (bombPhases rnd k g)) r c
                    = \<lparr>state = BombHot, team = team (cellAt g r c), health = None\<rparr>
                  \<and> (cellAt (grid (fst (stepGrid rnd k g))) r c
                        = \<lparr>state = BombHot, team = team (cellAt g r c), health = None\<rparr>
                      \<or> state (cellAt (grid (fst (stepGrid rnd k g))) r c) = Block)))
       \<and> (state (cellAt g r c) = BombHot \<longrightarrow>
            (r, c) \<in> set (blasts (fst (stepGrid rnd k g)))
            \<and> cellAt (fst (bombPhases rnd k g)) r c = emptyCell
            \<and> state (cellAt (grid (fst (stepGrid rnd k g))) r c) \<in> {Empty, Dot, Block})"
proof -
  let ?rows = "numRows g" and ?cols = "numCols g"
  let ?bp = "bombPhases rnd k g"
  let ?out = "grid (fst (stepGrid rnd k g))"
  have sh: "shape ?rows ?cols g" using wf by (rule wfGrid_shape)
  have sh3: "shape ?rows ?cols (fst ?bp)" using sh by (rule shape_bombPhases)
  have cleared: "state (cellAt ?out r c) \<in> {Empty, Dot, Block}"
    if bomb: "state (cellAt g r c) = BombArmed \<or> state (cellAt g r c) = BombHot"
      and e: "cellAt (fst ?bp) r c = emptyCell"
  proof -
    from stepGrid_bomb_cell [OF wf u inb bomb, of k]
    obtain ps k' nxt4 where out: "?out = fst (resolveCenters rnd k' ?rows ?cols ps nxt4)"
      and cen: "\<forall>(cr, cc) \<in> set ps. inBounds cr cc ?rows ?cols"
      and n4: "cellAt nxt4 r c = cellAt (fst ?bp) r c"
      and nxt4: "nxt4 = foldl resolveIntent (fst ?bp)
                        (fst (shuffled rnd (snd (replicationScan rnd (snd (snd ?bp)) g))
                                 (fst (replicationScan rnd (snd (snd ?bp)) g))))"
      by blast
    have sh4: "shape ?rows ?cols nxt4" unfolding nxt4 using sh3 by (rule shape_resolveIntents)
    have "state (cellAt nxt4 r c) \<in> {Empty, Dot, Block}" using n4 e by (simp add: emptyCell_def)
    from resolveCenters_states [OF sh4 u cen inb this] show ?thesis by (simp add: out)
  qed
  have kept: "cellAt ?out r c = \<lparr>state = BombHot, team = team (cellAt g r c), health = None\<rparr>
       \<or> state (cellAt ?out r c) = Block"
    if bomb: "state (cellAt g r c) = BombArmed"
      and h: "cellAt (fst ?bp) r c = \<lparr>state = BombHot, team = team (cellAt g r c), health = None\<rparr>"
  proof -
    from stepGrid_bomb_cell [OF wf u inb disjI1 [OF bomb], of k]
    obtain ps k' nxt4 where out: "?out = fst (resolveCenters rnd k' ?rows ?cols ps nxt4)"
      and cen: "\<forall>(cr, cc) \<in> set ps. inBounds cr cc ?rows ?cols"
      and n4: "cellAt nxt4 r c = cellAt (fst ?bp) r c"
      and nxt4: "nxt4 = foldl resolveIntent (fst ?bp)
                        (fst (shuffled rnd (snd (replicationScan rnd (snd (snd ?bp)) g))
                                 (fst (replicationScan rnd (snd (snd ?bp)) g))))"
      by blast
    have sh4: "shape ?rows ?cols nxt4" unfolding nxt4 using sh3 by (rule shape_resolveIntents)
    have st: "state (cellAt nxt4 r c) \<noteq> Empty" "state (cellAt nxt4 r c) \<noteq> Dot"
      using n4 h by simp_all
    from resolveCenters_occupied [OF sh4 u cen inb st, of k'] n4 h show ?thesis by (simp add: out)
  qed
  show ?thesis
  proof (intro conjI impI)
    assume a: "state (cellAt g r c) = BombArmed"
    from bombPhases_armed [OF sh inb a, of rnd k] cleared kept a
    show "if (r, c) \<in> set (blasts (fst (stepGrid rnd k g)))
             then cellAt (fst ?bp) r c = emptyCell
                  \<and> state (cellAt ?out r c) \<in> {Empty, Dot, Block}
             else cellAt (fst ?bp) r c
                    = \<lparr>state = BombHot, team = team (cellAt g r c), health = None\<rparr>
                  \<and> (cellAt ?out r c
                        = \<lparr>state = BombHot, team = team (cellAt g r c), health = None\<rparr>
                      \<or> state (cellAt ?out r c) = Block)"
      by (simp add: stepGrid_blasts)
  next
    assume hot: "state (cellAt g r c) = BombHot"
    from bombPhases_hot [OF sh inb hot, of rnd k]
    have m: "(r, c) \<in> set (fst (snd ?bp))" and e: "cellAt (fst ?bp) r c = emptyCell" by simp_all
    from m show "(r, c) \<in> set (blasts (fst (stepGrid rnd k g)))" by (simp add: stepGrid_blasts)
    from e show "cellAt (fst ?bp) r c = emptyCell" .
    from cleared [OF disjI2 [OF hot] e] show "state (cellAt ?out r c) \<in> {Empty, Dot, Block}" .
  qed
qed

text \<open>
  A witness: in the one-row grid of an armed cell next to a hot cell, with every draw at
  1/2, both cells are in the blast list and are cleared.
\<close>

theorem bomb_track_witness:
  "state (cellAt [ [\<lparr>state = BombArmed, team = Some Blue, health = None\<rparr>,
                   \<lparr>state = BombHot, team = Some Green, health = None\<rparr>]] 0 0) = BombArmed
   \<and> (0, 0) \<in> set (blasts (fst (stepGrid (\<lambda>n. 1 / 2) 0
          [ [\<lparr>state = BombArmed, team = Some Blue, health = None\<rparr>,
            \<lparr>state = BombHot, team = Some Green, health = None\<rparr>]])))
   \<and> state (cellAt (grid (fst (stepGrid (\<lambda>n. 1 / 2) 0
          [ [\<lparr>state = BombArmed, team = Some Blue, health = None\<rparr>,
            \<lparr>state = BombHot, team = Some Green, health = None\<rparr>]]))) 0 0) \<in> {Empty, Dot, Block}
   \<and> state (cellAt [ [\<lparr>state = BombArmed, team = Some Blue, health = None\<rparr>,
                     \<lparr>state = BombHot, team = Some Green, health = None\<rparr>]] 0 1) = BombHot
   \<and> (0, 1) \<in> set (blasts (fst (stepGrid (\<lambda>n. 1 / 2) 0
          [ [\<lparr>state = BombArmed, team = Some Blue, health = None\<rparr>,
            \<lparr>state = BombHot, team = Some Green, health = None\<rparr>]])))
   \<and> state (cellAt (grid (fst (stepGrid (\<lambda>n. 1 / 2) 0
          [ [\<lparr>state = BombArmed, team = Some Blue, health = None\<rparr>,
            \<lparr>state = BombHot, team = Some Green, health = None\<rparr>]]))) 0 1) \<in> {Empty, Dot, Block}"
proof -
  let ?g = "[ [\<lparr>state = BombArmed, team = Some Blue, health = None\<rparr>,
              \<lparr>state = BombHot, team = Some Green, health = None\<rparr>]]"
  have wf: "wfGrid ?g" by (simp add: wfGrid_def)
  have u: "unitRnd (\<lambda>n. 1 / 2)" by (simp add: unitRnd_def)
  have i0: "inBounds 0 0 (numRows ?g) (numCols ?g)" and i1: "inBounds 0 1 (numRows ?g) (numCols ?g)"
    by (simp_all add: inBounds_def numRows_def numCols_def)
  have ev: "blasts (fst (stepGrid (\<lambda>n. 1 / 2) 0 ?g)) = [(0, 0), (0, 1)]" by code_simp
  have s0: "state (cellAt ?g 0 0) = BombArmed" and s1: "state (cellAt ?g 0 1) = BombHot"
    by (simp_all add: cellAt_def)
  from bomb_track [OF wf u i0, of 0] bomb_track [OF wf u i1, of 0] s0 s1 ev
  show ?thesis by simp
qed

text \<open>
  The claim as stated fails twice. In the same one-row grid the armed cell at \<open>(0, 0)\<close>
  is not bomb-hot after the step: the blast of its neighbor has destroyed it. In the 3x3
  grid below, the blue dot at \<open>(1, 1)\<close> is armed in this step by the green blocks around
  it, and the attack intent of the green dot at \<open>(0, 1)\<close> then captures it: the cell was in
  a bomb state during the step and is a dot in its output.
\<close>

theorem bomb_track_counterexample:
  "state (cellAt [ [\<lparr>state = BombArmed, team = Some Blue, health = None\<rparr>,
                   \<lparr>state = BombHot, team = Some Green, health = None\<rparr>]] 0 0) = BombArmed
   \<and> cellAt (grid (fst (stepGrid (\<lambda>n. 1 / 2) 0
          [ [\<lparr>state = BombArmed, team = Some Blue, health = None\<rparr>,
            \<lparr>state = BombHot, team = Some Green, health = None\<rparr>]]))) 0 0 = emptyCell
   \<and> state (cellAt (fst (bombPhases (\<lambda>n. 1 / 2) 0
          [ [\<lparr>state = Block, team = Some Green, health = None\<rparr>,
            \<lparr>state = Dot, team = Some Green, health = Some 0\<rparr>,
            \<lparr>state = Block, team = Some Green, health = None\<rparr>],
           [\<lparr>state = Block, team = Some Green, health = None\<rparr>,
            \<lparr>state = Dot, team = Some Blue, health = Some 0\<rparr>,
            \<lparr>state = Block, team = Some Green, health = None\<rparr>],
           [\<lparr>state = Block, team = Some Green, health = None\<rparr>,
            \<lparr>state = Block, team = Some Green, health = None\<rparr>,
            \<lparr>state = Block, team = Some Green, health = None\<rparr>]])) 1 1) = BombArmed
   \<and> cellAt (grid (fst (stepGrid (\<lambda>n. 1 / 2) 0
          [ [\<lparr>state = Block, team = Some Green, health = None\<rparr>,
            \<lparr>state = Dot, team = Some Green, health = Some 0\<rparr>,
            \<lparr>state = Block, team = Some Green, health = None\<rparr>],
           [\<lparr>state = Block, team = Some Green, health = None\<rparr>,
            \<lparr>state = Dot, team = Some Blue, health = Some 0\<rparr>,
            \<lparr>state = Block, team = Some Green, health = None\<rparr>],
           [\<lparr>state = Block, team = Some Green, health = None\<rparr>,
            \<lparr>state = Block, team = Some Green, health = None\<rparr>,
            \<lparr>state = Block, team = Some Green, health = None\<rparr>]]))) 1 1
       = \<lparr>state = Dot, team = Some Green, health = Some 0\<rparr>"
  by code_simp

section \<open>Which grid each phase reads\<close>
















section \<open>Dead-end tokens\<close>

lemma sameWalls_at:
  "sameWalls g nxt \<Longrightarrow> inBounds r c (numRows g) (numCols g) \<Longrightarrow> wallAt nxt r c = wallAt g r c"
  by (auto simp: sameWalls_def list_all_iff positions_set)

lemma wallAt_iff:
  "wallAt nxt r c = wallAt g r c \<Longrightarrow>
     (state (cellAt nxt r c) = Block \<and> team (cellAt nxt r c) = Some tm)
       = (state (cellAt g r c) = Block \<and> team (cellAt g r c) = Some tm)"
  by (auto simp: wallAt_def split: if_splits)

lemma sameWalls_refl: "wfGrid g \<Longrightarrow> sameWalls g g"
  by (simp add: sameWalls_def shape_def list_all_iff)

lemma sameWalls_deadEnd:
  assumes sw: "sameWalls g nxt" and de: "deadEnd g n"
  shows "deadEnd nxt n"
proof -
  have dims: "numRows nxt = numRows g" "numCols nxt = numCols g"
    using sw by (simp_all add: sameWalls_def shape_def)
  have host: "inBounds (n_r n) (n_c n) (numRows g) (numCols g)" using de by (simp add: deadEnd_def)
  have f: "filter (\<lambda>(dr, dc). inBounds (n_r n + dr) (n_c n + dc) (numRows g) (numCols g)
                  \<and> state (cellAt nxt (n_r n + dr) (n_c n + dc)) = Block
                  \<and> team (cellAt nxt (n_r n + dr) (n_c n + dc)) = Some (n_team n)) CARDINALS
         = filter (\<lambda>(dr, dc). inBounds (n_r n + dr) (n_c n + dc) (numRows g) (numCols g)
                  \<and> state (cellAt g (n_r n + dr) (n_c n + dc)) = Block
                  \<and> team (cellAt g (n_r n + dr) (n_c n + dc)) = Some (n_team n)) CARDINALS"
    by (rule filter_cong [OF refl]) (auto dest: sameWalls_at [OF sw, THEN wallAt_iff])
  show ?thesis
    using de wallAt_iff [OF sameWalls_at [OF sw host], of "n_team n"]
    by (simp add: deadEnd_def dims f)
qed

lemma moveNutrient_deadEnd:
  assumes wf: "wfGrid nxt" and de: "deadEnd nxt n"
  shows "moveNutrient rnd (numRows nxt) (numCols nxt) (nxt, out, occ, k) n =
     ((case friendlyDots nxt (numRows nxt) (numCols nxt) (n_r n) (n_c n) (n_team n) of
         [] \<Rightarrow> nxt
       | (fr, fc) # _ \<Rightarrow>
           setCell nxt fr fc
             \<lparr>state = (if hasEnemyNeighbor nxt fr fc (Some (n_team n))
                        then state (cellAt nxt fr fc) else Producer),
              team = Some (n_team n),
              health = Some (min 3 (healthOr0 (cellAt nxt fr fc) + 1))\<rparr>),
      out, occ, k)"
proof -
  let ?rows = "numRows nxt" and ?cols = "numCols nxt"
  have host: "inBounds (n_r n) (n_c n) ?rows ?cols"
    "state (cellAt nxt (n_r n) (n_c n)) = Block"
    "team (cellAt nxt (n_r n) (n_c n)) = Some (n_team n)"
    using de by (simp_all add: deadEnd_def)
  have dirs: "wallNeighborDirs nxt ?rows ?cols (n_r n) (n_c n) (n_team n) (Some (n_dir n)) = []"
    using de by (simp only: wallNeighborDirs_empty deadEnd_def)
  have mv: "moveNutrient rnd ?rows ?cols (nxt, out, occ, k) n = (handleDeadEnd nxt ?rows ?cols n, out, occ, k)"
    using host dirs by (simp add: moveNutrient_def)
  show ?thesis
  proof (cases "friendlyDots nxt ?rows ?cols (n_r n) (n_c n) (n_team n)")
    case Nil
    then show ?thesis by (simp add: mv handleDeadEnd_def)
  next
    case (Cons p rest)
    obtain fr fc where p: "p = (fr, fc)" by (cases p)
    from friendlyDots_hd [OF Cons [unfolded p]]
    have "inBounds fr fc ?rows ?cols" "team (cellAt nxt fr fc) = Some (n_team n)"
      "isDotLike (cellAt nxt fr fc)" by simp_all
    from feedDot_result [OF wf this] show ?thesis
      by (simp add: mv handleDeadEnd_def Cons p)
  qed
qed

lemma handleDeadEnd_sameWalls:
  assumes sw: "sameWalls g nxt"
  shows "sameWalls g (handleDeadEnd nxt (numRows g) (numCols g) n)"
proof (cases "friendlyDots nxt (numRows g) (numCols g) (n_r n) (n_c n) (n_team n)")
  case Nil
  then show ?thesis using sw by (simp add: handleDeadEnd_def)
next
  case (Cons p rest)
  obtain fr fc where p: "p = (fr, fc)" by (cases p)
  have sh: "shape (numRows g) (numCols g) nxt" using sw by (simp add: sameWalls_def)
  then have wf: "wfGrid nxt" and dims: "numRows nxt = numRows g" "numCols nxt = numCols g"
    by (simp_all add: shape_def)
  from friendlyDots_hd [OF Cons [unfolded p]]
  have inb: "inBounds fr fc (numRows g) (numCols g)" and tm: "team (cellAt nxt fr fc) = Some (n_team n)"
    and dl: "isDotLike (cellAt nxt fr fc)" by simp_all
  define v where "v = \<lparr>state = (if hasEnemyNeighbor nxt fr fc (Some (n_team n))
                          then state (cellAt nxt fr fc) else Producer),
                 team = Some (n_team n),
                 health = Some (min 3 (healthOr0 (cellAt nxt fr fc) + 1))\<rparr>"
  have res: "handleDeadEnd nxt (numRows g) (numCols g) n = setCell nxt fr fc v"
    using feedDot_result [OF wf _ tm dl] inb by (simp add: handleDeadEnd_def Cons p dims v_def)
  have nb: "state v \<noteq> Block" "state (cellAt nxt fr fc) \<noteq> Block"
    using dl by (auto simp: v_def isDotLike_def)
  have "wallAt (setCell nxt fr fc v) r c = wallAt g r c"
    if "inBounds r c (numRows g) (numCols g)" for r c
    using cellAt_setCell [OF sh inb that, of v] sameWalls_at [OF sw that] nb
    by (auto simp: wallAt_def split: if_splits)
  then show ?thesis
    unfolding res sameWalls_def using shape_setCell [OF sh]
    by (auto simp: list_all_iff positions_set)
qed

lemma moveNutrient_sameWalls:
  assumes "sameWalls g nxt"
  shows "sameWalls g (fst (moveNutrient rnd (numRows g) (numCols g) (nxt, out, occ, k) n))"
  using moveNutrient_grid [of rnd "numRows g" "numCols g" "(nxt, out, occ, k)" n]
    handleDeadEnd_sameWalls [OF assms, of n] assms
  by auto

lemma moveNutrient_ids:
  "n_id ` set (fst (snd (moveNutrient rnd rows cols (nxt, out, occ, k) n)))
     \<subseteq> n_id ` set out \<union> {n_id n}"
  by (auto simp: moveNutrient_def Let_def split_beta)

lemma moveNutrients_ids:
  "n_id ` set (fst (snd (foldl (moveNutrient rnd rows cols) st ns)))
     \<subseteq> n_id ` set (fst (snd st)) \<union> n_id ` set ns"
proof (induction ns arbitrary: st)
  case Nil
  then show ?case by simp
next
  case (Cons n ns)
  obtain nxt out occ k where st: "st = (nxt, out, occ, k)" by (cases st)
  from Cons.IH [of "moveNutrient rnd rows cols st n"] moveNutrient_ids [of rnd rows cols nxt out occ k n]
  show ?case unfolding st by auto
qed

lemma moveNutrients_deadEnd:
  "sameWalls g nxt \<Longrightarrow> deadEnd g n \<Longrightarrow> n \<in> set ns \<Longrightarrow> distinct (map n_id ns)
   \<Longrightarrow> n_id n \<notin> n_id ` set out
   \<Longrightarrow> n_id n \<notin> n_id ` set (fst (snd (foldl (moveNutrient rnd (numRows g) (numCols g))
                                            (nxt, out, occ, k) ns)))"
proof (induction ns arbitrary: nxt out occ k)
  case Nil
  then show ?case by simp
next
  case (Cons m ns)
  let ?st = "moveNutrient rnd (numRows g) (numCols g) (nxt, out, occ, k) m"
  obtain nxt' out' occ' k' where st: "?st = (nxt', out', occ', k')" by (cases ?st)
  have sw': "sameWalls g nxt'"
    using moveNutrient_sameWalls [OF Cons.prems(1), of rnd out occ k m] by (simp add: st)
  show ?case
  proof (cases "m = n")
    case True
    have sh: "shape (numRows g) (numCols g) nxt" using Cons.prems(1) by (simp add: sameWalls_def)
    then have wf: "wfGrid nxt" and dims: "numRows nxt = numRows g" "numCols nxt = numCols g"
      by (simp_all add: shape_def)
    from moveNutrient_deadEnd [OF wf sameWalls_deadEnd [OF Cons.prems(1,2)], of rnd out occ k]
    have "out' = out" using st True by (simp add: dims)
    moreover have "n_id n \<notin> n_id ` set ns" using Cons.prems(4) True by auto
    ultimately have "n_id n \<notin> n_id ` set (fst (snd (foldl (moveNutrient rnd (numRows g) (numCols g)) ?st ns)))"
      using moveNutrients_ids [of rnd "numRows g" "numCols g" ?st ns] Cons.prems(5) by (auto simp: st)
    then show ?thesis by simp
  next
    case False
    with Cons.prems(3) have mem: "n \<in> set ns" by simp
    with Cons.prems(4) have "n_id m \<noteq> n_id n" by auto
    with moveNutrient_ids [of rnd "numRows g" "numCols g" nxt out occ k m] Cons.prems(5)
    have "n_id n \<notin> n_id ` set out'" by (auto simp: st)
    from Cons.IH [OF sw' Cons.prems(2) mem _ this, of occ' k'] Cons.prems(4)
    show ?thesis by (simp add: st)
  qed
qed

lemma friendlyDots_prim:
  "friendlyDots nxt rows cols r c tm =
     filter (\<lambda>(fr, fc). inBounds fr fc rows cols \<and> team (cellAt nxt fr fc) = Some tm
                \<and> (state (cellAt nxt fr fc) = Dot \<or> state (cellAt nxt fr fc) = Producer))
       [(r + 1, c), (r - 1, c), (r, c + 1), (r, c - 1)]"
  by (simp add: friendlyDots_def CARDINALS_def isDotLike_def)

lemma hasEnemyNeighbor_prim:
  "hasEnemyNeighbor nxt fr fc (Some tm) =
     (\<exists>(er, ec) \<in> set [(fr + 1, fc), (fr - 1, fc), (fr, fc + 1), (fr, fc - 1)].
         inBounds er ec (numRows nxt) (numCols nxt) \<and> team (cellAt nxt er ec) \<noteq> None
         \<and> team (cellAt nxt er ec) \<noteq> Some tm \<and> state (cellAt nxt er ec) \<noteq> Empty)"
  by (simp add: hasEnemyNeighbor_def CARDINALS_def)

lemma deadEnd_prim:
  "deadEnd g m \<longleftrightarrow>
     inBounds (n_r m) (n_c m) (numRows g) (numCols g)
     \<and> state (cellAt g (n_r m) (n_c m)) = Block
     \<and> team (cellAt g (n_r m) (n_c m)) = Some (n_team m)
     \<and> (\<forall>(wr, wc) \<in> set [(n_r m + 1, n_c m), (n_r m - 1, n_c m), (n_r m, n_c m + 1), (n_r m, n_c m - 1)].
           \<not> (inBounds wr wc (numRows g) (numCols g) \<and> state (cellAt g wr wc) = Block
               \<and> team (cellAt g wr wc) = Some (n_team m)))"
  by (auto simp: deadEnd_def CARDINALS_def)

lemma moveNutrient_deadEnd_fed:
  assumes wf: "wfGrid nxt" and de: "deadEnd nxt n"
  shows "moveNutrient rnd (numRows nxt) (numCols nxt) (nxt, out, occ, k) n
           = (fedGrid (numRows nxt) (numCols nxt) nxt n, out, occ, k)"
  unfolding moveNutrient_deadEnd [OF wf de] fedGrid_def friendlyDots_prim hasEnemyNeighbor_prim
    healthOr0_def ..

lemma sameWalls_deadEnd_iff:
  assumes sw: "sameWalls g nxt"
  shows "deadEnd nxt n = deadEnd g n"
proof -
  have dims: "numRows nxt = numRows g" "numCols nxt = numCols g"
    using sw by (simp_all add: sameWalls_def shape_def)
  have f: "filter (\<lambda>(dr, dc). inBounds (n_r n + dr) (n_c n + dc) (numRows g) (numCols g)
                  \<and> state (cellAt nxt (n_r n + dr) (n_c n + dc)) = Block
                  \<and> team (cellAt nxt (n_r n + dr) (n_c n + dc)) = Some (n_team n)) CARDINALS
         = filter (\<lambda>(dr, dc). inBounds (n_r n + dr) (n_c n + dc) (numRows g) (numCols g)
                  \<and> state (cellAt g (n_r n + dr) (n_c n + dc)) = Block
                  \<and> team (cellAt g (n_r n + dr) (n_c n + dc)) = Some (n_team n)) CARDINALS"
    by (rule filter_cong [OF refl]) (auto dest: sameWalls_at [OF sw, THEN wallAt_iff])
  show ?thesis
  proof (cases "inBounds (n_r n) (n_c n) (numRows g) (numCols g)")
    case True
    from wallAt_iff [OF sameWalls_at [OF sw True], of "n_team n"]
    show ?thesis by (auto simp: deadEnd_def dims f)
  next
    case False
    then show ?thesis by (simp add: deadEnd_def dims)
  qed
qed

lemma moveNutrient_not_deadEnd:
  assumes "\<not> deadEnd nxt n"
  shows "fst (moveNutrient rnd (numRows nxt) (numCols nxt) (nxt, out, occ, k) n) = nxt"
proof -
  have "wallNeighborDirs nxt (numRows nxt) (numCols nxt) (n_r n) (n_c n) (n_team n) (Some (n_dir n)) \<noteq> []"
    if "inBounds (n_r n) (n_c n) (numRows nxt) (numCols nxt)"
      "state (cellAt nxt (n_r n) (n_c n)) = Block"
      "team (cellAt nxt (n_r n) (n_c n)) = Some (n_team n)"
    using assms that by (simp only: wallNeighborDirs_empty deadEnd_def) simp
  then show ?thesis
    by (auto simp: moveNutrient_def Let_def split_beta)
qed

lemma moveNutrient_step_grid:
  assumes sw: "sameWalls g nxt"
  shows "fst (moveNutrient rnd (numRows g) (numCols g) (nxt, out, occ, k) m)
           = (if deadEnd g m then fedGrid (numRows g) (numCols g) nxt m else nxt)"
proof -
  have sh: "shape (numRows g) (numCols g) nxt" using sw by (simp add: sameWalls_def)
  then have wf: "wfGrid nxt" and dims: "numRows nxt = numRows g" "numCols nxt = numCols g"
    by (simp_all add: shape_def)
  show ?thesis
  proof (cases "deadEnd g m")
    case True
    then have "deadEnd nxt m" by (simp add: sameWalls_deadEnd_iff [OF sw])
    from moveNutrient_deadEnd_fed [OF wf this, of rnd out occ k] True show ?thesis by (simp add: dims)
  next
    case False
    then have "\<not> deadEnd nxt m" by (simp add: sameWalls_deadEnd_iff [OF sw])
    from moveNutrient_not_deadEnd [OF this, of rnd out occ k] False show ?thesis by (simp add: dims)
  qed
qed

lemma moveNutrients_grid_fold:
  "sameWalls g nxt \<Longrightarrow>
     fst (foldl (moveNutrient rnd (numRows g) (numCols g)) (nxt, out, occ, k) ns)
       = foldl (\<lambda>gr m. if deadEnd g m then fedGrid (numRows g) (numCols g) gr m else gr) nxt ns"
proof (induction ns arbitrary: nxt out occ k)
  case Nil
  then show ?case by simp
next
  case (Cons m ns)
  let ?st = "moveNutrient rnd (numRows g) (numCols g) (nxt, out, occ, k) m"
  obtain nxt' out' occ' k' where st: "?st = (nxt', out', occ', k')" by (cases ?st)
  have sw': "sameWalls g nxt'"
    using moveNutrient_sameWalls [OF Cons.prems, of rnd out occ k m] by (simp add: st)
  have "nxt' = (if deadEnd g m then fedGrid (numRows g) (numCols g) nxt m else nxt)"
    using moveNutrient_step_grid [OF Cons.prems, of rnd out occ k m] by (simp add: st)
  with Cons.IH [OF sw', of out' occ' k'] show ?case by (simp add: st)
qed

lemma emitLoop_step:
  "\<exists>out' occ' k'. emitLoop rnd clock nxt rows cols tick ((r, c) # ps) (out, occ, k)
        = emitLoop rnd clock nxt rows cols tick ps (out', occ', k')
      \<and> (out' = out \<or> (\<exists>x k'' pr pc. out' = out @ [x] \<and> n_id x = (clock k'', pr, pc, tick, rnd k'')))"
proof (cases "team (cellAt nxt r c)")
  case None
  then show ?thesis by auto
next
  case (Some tm)
  show ?thesis
  proof (cases "state (cellAt nxt r c) \<noteq> Producer \<or> wallNeighborDirs nxt rows cols r c tm None = []")
    case True
    then show ?thesis using Some by auto
  next
    case False
    let ?sh = "shuffled rnd k (wallNeighborDirs nxt rows cols r c tm None)"
    show ?thesis
    proof (cases "occCount occ (r + fst (hd (fst ?sh)), c + snd (hd (fst ?sh))) \<ge> MAX_NUTRIENTS_PER_CELL")
      case True
      then have "emitLoop rnd clock nxt rows cols tick ((r, c) # ps) (out, occ, k)
          = emitLoop rnd clock nxt rows cols tick ps (out, occ, snd ?sh)"
        using Some False by (simp add: Let_def split_beta)
      then show ?thesis by blast
    next
      case full: False
      define x where "x = \<lparr>n_id = (clock (snd ?sh), r, c, tick, rnd (snd ?sh)),
           n_r = r + fst (hd (fst ?sh)), n_c = c + snd (hd (fst ?sh)),
           n_team = tm, n_dir = hd (fst ?sh), n_prev = None\<rparr>"
      have "emitLoop rnd clock nxt rows cols tick ((r, c) # ps) (out, occ, k)
          = emitLoop rnd clock nxt rows cols tick ps
              (out @ [x],
               occ((r + fst (hd (fst ?sh)), c + snd (hd (fst ?sh)))
                   \<mapsto> occCount occ (r + fst (hd (fst ?sh)), c + snd (hd (fst ?sh))) + 1),
               Suc (snd ?sh))"
        using Some False full by (simp add: Let_def split_beta x_def)
      moreover have "n_id x = (clock (snd ?sh), r, c, tick, rnd (snd ?sh))" by (simp add: x_def)
      ultimately show ?thesis by blast
    qed
  qed
qed

lemma emitLoop_ids:
  "m \<in> set (fst (emitLoop rnd clock nxt rows cols tick ps (out, occ, k)))
   \<Longrightarrow> m \<in> set out \<or> (\<exists>k' pr pc. n_id m = (clock k', pr, pc, tick, rnd k'))"
proof (induction ps arbitrary: out occ k)
  case Nil
  then show ?case by simp
next
  case (Cons p ps)
  obtain r c where p: "p = (r, c)" by (cases p)
  from emitLoop_step [of rnd clock nxt rows cols tick r c ps out occ k]
  obtain out' occ' k' where
    step: "emitLoop rnd clock nxt rows cols tick ((r, c) # ps) (out, occ, k)
        = emitLoop rnd clock nxt rows cols tick ps (out', occ', k')"
    and out': "out' = out \<or> (\<exists>x k'' pr pc. out' = out @ [x] \<and> n_id x = (clock k'', pr, pc, tick, rnd k''))"
    by blast
  from Cons.prems have "m \<in> set (fst (emitLoop rnd clock nxt rows cols tick ps (out', occ', k')))"
    unfolding p step .
  from Cons.IH [OF this] out' show ?case by auto
qed

lemma runNutrients_ids:
  assumes "m \<in> set (nutrients (fst (runNutrients rnd clock k g ns tick)))"
  shows "m \<in> set (fst (snd (foldl (moveNutrient rnd (numRows g) (numCols g)) (g, [], Map.empty, k) ns)))
       \<or> (\<exists>k' pr pc. n_id m = (clock k', pr, pc, tick, rnd k'))"
proof -
  let ?f = "foldl (moveNutrient rnd (numRows g) (numCols g)) (g, [], Map.empty, k) ns"
  obtain nxt out occ k1 where f: "?f = (nxt, out, occ, k1)" by (cases ?f)
  show ?thesis
  proof (cases "tick mod PRODUCE_EVERY = 0")
    case True
    with assms have "m \<in> set (fst (emitLoop rnd clock nxt (numRows g) (numCols g) tick
                       (positions (numRows g) (numCols g)) (out, occ, k1)))"
      by (simp add: runNutrients_def Let_def f split_beta)
    from emitLoop_ids [OF this] show ?thesis by (simp add: f)
  next
    case False
    with assms show ?thesis by (simp add: runNutrients_def Let_def f split_beta)
  qed
qed


text \<open>
  Claim C7, for a well-formed grid \<open>g\<close>. A token \<open>m\<close> is a dead end (\<open>dead m\<close>) when it
  sits inside the grid on a block of its team and none of the cells below, above, right and
  left of it is a block of its team inside the grid. Feeding (\<open>feed gr m\<close>) looks at those
  four cells in that order for the first one inside the grid that is a dot or producer of
  the token's team. If there is none the grid is unchanged. Otherwise that cell gets health
  \<open>min 3 (health + 1)\<close>, an absent health counting as 0, keeps its team, and becomes a
  producer exactly when none of its own four neighbors inside the grid is a non-empty cell
  with a team other than the token's; with such a neighbor it keeps its state. No other cell
  changes.

  \<^item> On its turn in the token loop a dead-end token feeds and leaves the list of next
    tokens, the occupancy map and the draw count as they were.
  \<^item> The grid returned by a whole call is the input grid after the dead-end tokens of the
    list have fed in order; tokens that are not dead ends change nothing in it.
  \<^item> Token ids are unique: when the ids of the list are distinct and the id of a dead-end
    token is not one that this call can give to a token it emits, no returned token has
    that id, on any tick, including the ticks on which producers emit.
\<close>

theorem dead_end_feeding:
  assumes wf: "wfGrid g"
  shows "(let rows = numRows g; cols = numCols g;
              dead = (\<lambda>m. inBounds (n_r m) (n_c m) rows cols
                        \<and> state (cellAt g (n_r m) (n_c m)) = Block
                        \<and> team (cellAt g (n_r m) (n_c m)) = Some (n_team m)
                        \<and> (\<forall>(wr, wc) \<in> set [(n_r m + 1, n_c m), (n_r m - 1, n_c m),
                                               (n_r m, n_c m + 1), (n_r m, n_c m - 1)].
                              \<not> (inBounds wr wc rows cols \<and> state (cellAt g wr wc) = Block
                                  \<and> team (cellAt g wr wc) = Some (n_team m))));
              feed = (\<lambda>gr m.
                 case filter (\<lambda>(fr, fc). inBounds fr fc rows cols
                                  \<and> team (cellAt gr fr fc) = Some (n_team m)
                                  \<and> (state (cellAt gr fr fc) = Dot \<or> state (cellAt gr fr fc) = Producer))
                        [(n_r m + 1, n_c m), (n_r m - 1, n_c m), (n_r m, n_c m + 1), (n_r m, n_c m - 1)] of
                   [] \<Rightarrow> gr
                 | (fr, fc) # _ \<Rightarrow>
                     setCell gr fr fc
                       \<lparr>state = (if (\<exists>(er, ec) \<in> set [(fr + 1, fc), (fr - 1, fc), (fr, fc + 1), (fr, fc - 1)].
                                       inBounds er ec rows cols \<and> team (cellAt gr er ec) \<noteq> None
                                       \<and> team (cellAt gr er ec) \<noteq> Some (n_team m)
                                       \<and> state (cellAt gr er ec) \<noteq> Empty)
                                  then state (cellAt gr fr fc) else Producer),
                        team = Some (n_team m),
                        health = Some (min 3 ((case health (cellAt gr fr fc) of None \<Rightarrow> 0 | Some h \<Rightarrow> h) + 1))\<rparr>)
          in (dead n \<longrightarrow> moveNutrient rnd rows cols (g, out, occ, k) n = (feed g n, out, occ, k))
           \<and> ngrid (fst (runNutrients rnd clock k g ns tick))
               = foldl (\<lambda>gr m. if dead m then feed gr m else gr) g ns
           \<and> (dead n \<and> n \<in> set ns \<and> distinct (map n_id ns)
                \<and> (\<forall>k' pr pc. n_id n \<noteq> (clock k', pr, pc, tick, rnd k'))
              \<longrightarrow> n_id n \<notin> n_id ` set (nutrients (fst (runNutrients rnd clock k g ns tick)))))"
proof -
  let ?rows = "numRows g" and ?cols = "numCols g"
  have sw: "sameWalls g g" using wf by (rule sameWalls_refl)
  have one: "moveNutrient rnd ?rows ?cols (g, out, occ, k) n = (fedGrid ?rows ?cols g n, out, occ, k)"
    if "deadEnd g n"
    using wf that by (rule moveNutrient_deadEnd_fed)
  have two: "ngrid (fst (runNutrients rnd clock k g ns tick))
      = foldl (\<lambda>gr m. if deadEnd g m then fedGrid ?rows ?cols gr m else gr) g ns"
    unfolding runNutrients_grid using sw by (rule moveNutrients_grid_fold)
  have three: "n_id n \<notin> n_id ` set (nutrients (fst (runNutrients rnd clock k g ns tick)))"
    if de: "deadEnd g n" and mem: "n \<in> set ns" and d: "distinct (map n_id ns)"
      and fresh: "\<forall>k' pr pc. n_id n \<noteq> (clock k', pr, pc, tick, rnd k')"
  proof
    assume "n_id n \<in> n_id ` set (nutrients (fst (runNutrients rnd clock k g ns tick)))"
    then obtain m where m: "m \<in> set (nutrients (fst (runNutrients rnd clock k g ns tick)))"
      and id: "n_id m = n_id n" by auto
    have carried: "n_id n \<notin> n_id ` set (fst (snd (foldl (moveNutrient rnd ?rows ?cols)
                                       (g, [], Map.empty, k) ns)))"
      using sw de mem d by (intro moveNutrients_deadEnd) simp_all
    from runNutrients_ids [OF m] show False
    proof
      assume "m \<in> set (fst (snd (foldl (moveNutrient rnd ?rows ?cols) (g, [], Map.empty, k) ns)))"
      then have "n_id m \<in> n_id ` set (fst (snd (foldl (moveNutrient rnd ?rows ?cols)
                                       (g, [], Map.empty, k) ns)))" by (rule imageI)
      with carried id show False by simp
    next
      assume "\<exists>k' pr pc. n_id m = (clock k', pr, pc, tick, rnd k')"
      with fresh id show False by auto
    qed
  qed
  show ?thesis
    unfolding Let_def deadEnd_prim [symmetric] fedGrid_def [symmetric]
    using one two three by blast
qed


text \<open>
  A witness on tick 6, when producers emit: a token on a lone blue wall at \<open>(0, 0)\<close> next
  to a blue dot of health 2. The dot becomes a producer of health 3 and at once emits a new
  token onto the wall; the returned list holds that new token only. On a second grid the
  blue dot has no health and a green dot beside it: it is fed to health 1 and stays a dot.
\<close>

theorem dead_end_feeding_witness:
  "moveNutrient (\<lambda>n. 0) 1 2
     ([ [\<lparr>state = Block, team = Some Blue, health = None\<rparr>,
         \<lparr>state = Dot, team = Some Blue, health = Some 2\<rparr>]], [], Map.empty, 0)
     \<lparr>n_id = (0, 0, 0, 0, 0), n_r = 0, n_c = 0, n_team = Blue, n_dir = (0, - 1), n_prev = None\<rparr>
   = ([ [\<lparr>state = Block, team = Some Blue, health = None\<rparr>,
         \<lparr>state = Producer, team = Some Blue, health = Some 3\<rparr>]], [], Map.empty, 0)
   \<and> ngrid (fst (runNutrients (\<lambda>n. 0) (\<lambda>n. 0) 0
        [ [\<lparr>state = Block, team = Some Blue, health = None\<rparr>,
           \<lparr>state = Dot, team = Some Blue, health = Some 2\<rparr>]]
        [\<lparr>n_id = (0, 0, 0, 0, 0), n_r = 0, n_c = 0, n_team = Blue, n_dir = (0, - 1), n_prev = None\<rparr>]
        6))
       = [ [\<lparr>state = Block, team = Some Blue, health = None\<rparr>,
            \<lparr>state = Producer, team = Some Blue, health = Some 3\<rparr>]]
   \<and> (0, 0, 0, 0, 0) \<notin> n_id ` set (nutrients (fst (runNutrients (\<lambda>n. 0) (\<lambda>n. 0) 0
        [ [\<lparr>state = Block, team = Some Blue, health = None\<rparr>,
           \<lparr>state = Dot, team = Some Blue, health = Some 2\<rparr>]]
        [\<lparr>n_id = (0, 0, 0, 0, 0), n_r = 0, n_c = 0, n_team = Blue, n_dir = (0, - 1), n_prev = None\<rparr>]
        6)))
   \<and> nutrients (fst (runNutrients (\<lambda>n. 0) (\<lambda>n. 0) 0
        [ [\<lparr>state = Block, team = Some Blue, health = None\<rparr>,
           \<lparr>state = Dot, team = Some Blue, health = Some 2\<rparr>]]
        [\<lparr>n_id = (0, 0, 0, 0, 0), n_r = 0, n_c = 0, n_team = Blue, n_dir = (0, - 1), n_prev = None\<rparr>]
        6))
       = [\<lparr>n_id = (0, 0, 1, 6, 0), n_r = 0, n_c = 0, n_team = Blue, n_dir = (0, - 1), n_prev = None\<rparr>]
   \<and> ngrid (fst (runNutrients (\<lambda>n. 0) (\<lambda>n. 0) 0
        [ [\<lparr>state = Block, team = Some Blue, health = None\<rparr>,
           \<lparr>state = Dot, team = Some Blue, health = None\<rparr>,
           \<lparr>state = Dot, team = Some Green, health = Some 0\<rparr>]]
        [\<lparr>n_id = (0, 0, 0, 0, 0), n_r = 0, n_c = 0, n_team = Blue, n_dir = (0, - 1), n_prev = None\<rparr>]
        1))
       = [ [\<lparr>state = Block, team = Some Blue, health = None\<rparr>,
            \<lparr>state = Dot, team = Some Blue, health = Some 1\<rparr>,
            \<lparr>state = Dot, team = Some Green, health = Some 0\<rparr>]]"
proof -
  let ?g = "[ [\<lparr>state = Block, team = Some Blue, health = None\<rparr>,
               \<lparr>state = Dot, team = Some Blue, health = Some 2\<rparr>]]"
  let ?h = "[ [\<lparr>state = Block, team = Some Blue, health = None\<rparr>,
               \<lparr>state = Dot, team = Some Blue, health = None\<rparr>,
               \<lparr>state = Dot, team = Some Green, health = Some 0\<rparr>]]"
  let ?n = "\<lparr>n_id = (0, 0, 0, 0, 0), n_r = 0, n_c = 0, n_team = Blue, n_dir = (0, - 1), n_prev = None\<rparr>"
  have wfg: "wfGrid ?g" and wfh: "wfGrid ?h" by (simp_all add: wfGrid_def)
  have ret: "nutrients (fst (runNutrients (\<lambda>n. 0) (\<lambda>n. 0) 0 ?g [?n] 6))
       = [\<lparr>n_id = (0, 0, 1, 6, 0), n_r = 0, n_c = 0, n_team = Blue, n_dir = (0, - 1), n_prev = None\<rparr>]"
    by code_simp
  from dead_end_feeding [OF wfg, where n = ?n and rnd = "\<lambda>n. 0" and out = "[]" and occ = Map.empty
      and k = 0 and clock = "\<lambda>n. 0" and ns = "[?n]" and tick = 6]
  have a: "moveNutrient (\<lambda>n. 0) 1 2 (?g, [], Map.empty, 0) ?n
       = ([ [\<lparr>state = Block, team = Some Blue, health = None\<rparr>,
             \<lparr>state = Producer, team = Some Blue, health = Some 3\<rparr>]], [], Map.empty, 0)"
    and b: "ngrid (fst (runNutrients (\<lambda>n. 0) (\<lambda>n. 0) 0 ?g [?n] 6))
       = [ [\<lparr>state = Block, team = Some Blue, health = None\<rparr>,
            \<lparr>state = Producer, team = Some Blue, health = Some 3\<rparr>]]"
    and c: "(0, 0, 0, 0, 0) \<notin> n_id ` set (nutrients (fst (runNutrients (\<lambda>n. 0) (\<lambda>n. 0) 0 ?g [?n] 6)))"
    by (simp_all add: Let_def numRows_def numCols_def inBounds_def cellAt_def setCell_def)
  from dead_end_feeding [OF wfh, where n = ?n and rnd = "\<lambda>n. 0" and out = "[]" and occ = Map.empty
      and k = 0 and clock = "\<lambda>n. 0" and ns = "[?n]" and tick = 1]
  have d: "ngrid (fst (runNutrients (\<lambda>n. 0) (\<lambda>n. 0) 0 ?h [?n] 1))
       = [ [\<lparr>state = Block, team = Some Blue, health = None\<rparr>,
            \<lparr>state = Dot, team = Some Blue, health = Some 1\<rparr>,
            \<lparr>state = Dot, team = Some Green, health = Some 0\<rparr>]]"
    by (simp add: Let_def numRows_def numCols_def inBounds_def cellAt_def setCell_def)
  from a b c ret d show ?thesis by simp
qed

end
